theory Spec2Isabelle
  imports Main "HOL-Library.AList"
begin

section \<open>Python string primitives used by the format engine\<close>

text \<open>
  A string is a list of characters, and a character stands for a code point below 256.
  \<open>isspace\<close> is Python's \<^verbatim>\<open>str.isspace\<close> on those code points (the characters
  \<^verbatim>\<open>str.split()\<close> and \<^verbatim>\<open>str.strip()\<close> treat as white space); \<open>isword\<close> is the
  class \<^verbatim>\<open>\w\<close> of a Python 3 \<^verbatim>\<open>str\<close> pattern on them.
\<close>

definition isspace :: "char \<Rightarrow> bool" where
  "isspace c = (of_char c \<in> {9, 10, 11, 12, 13, 28, 29, 30, 31, 32, 133, 160 :: nat})"

definition isword :: "char \<Rightarrow> bool" where
  "isword c =
     (let n = (of_char c :: nat) in
        (48 \<le> n \<and> n \<le> 57) \<or> (65 \<le> n \<and> n \<le> 90) \<or> n = 95 \<or> (97 \<le> n \<and> n \<le> 122) \<or>
        n \<in> {170, 178, 179, 181, 185, 186, 188, 189, 190} \<or>
        (192 \<le> n \<and> n \<le> 214) \<or> (216 \<le> n \<and> n \<le> 246) \<or> 248 \<le> n)"

text \<open>\<^verbatim>\<open>text.split()\<close>: the maximal runs of characters that are not white space.\<close>

fun split_ws :: "string \<Rightarrow> string \<Rightarrow> string list" where
  "split_ws w [] = (if w = [] then [] else [w])"
| "split_ws w (c # cs) =
     (if isspace c then (if w = [] then split_ws [] cs else w # split_ws [] cs)
      else split_ws (w @ [c]) cs)"

definition py_split :: "string \<Rightarrow> string list" where
  "py_split s = split_ws [] s"

text \<open>\<^verbatim>\<open>sep.join(xs)\<close>.\<close>

fun py_join :: "string \<Rightarrow> string list \<Rightarrow> string" where
  "py_join sep [] = []"
| "py_join sep [x] = x"
| "py_join sep (x # y # ys) = x @ sep @ py_join sep (y # ys)"

text \<open>\<^verbatim>\<open>s.strip()\<close>.\<close>

definition py_strip :: "string \<Rightarrow> string" where
  "py_strip s = rev (dropWhile isspace (rev (dropWhile isspace s)))"

text \<open>\<^verbatim>\<open>' '.join(text.split())\<close>, the first line of \<^verbatim>\<open>parseLine\<close>.\<close>

definition normalize_ws :: "string \<Rightarrow> string" where
  "normalize_ws s = py_join '' '' (py_split s)"

section \<open>Fields, template parts and the field references of a template\<close>

text \<open>
  A field object of \<^verbatim>\<open>fieldformat\<close>: its name and the class \<^verbatim>\<open>addField\<close> chose for it.
  What a field renders and how it reads a title are capabilities of that module; the
  functions below take them as parameters.
\<close>

record field =
  name :: string
  fieldtype :: string

text \<open>
  A part of a parsed line is a field object or a plain string; the source tells them apart
  with \<^verbatim>\<open>hasattr(part, 'outputText')\<close>, \<^verbatim>\<open>hasattr(part, 'sepName')\<close> and
  \<^verbatim>\<open>hasattr(seg, 'name')\<close>.
\<close>

datatype part = FieldPart field | TextPart string

text \<open>The class \<^verbatim>\<open>[\w_\-.]\<close> of the characters of a field name.\<close>

definition isnamechar :: "char \<Rightarrow> bool" where
  "isnamechar c = (isword c \<or> c = CHR ''_'' \<or> c = CHR ''-'' \<or> c = CHR ''.'')"

text \<open>
  Group 1 of \<^verbatim>\<open>_fieldPartRe\<close>, \<^verbatim>\<open>(\**|\?|!|&|#)\<close>, read at the start of the text after
  \<^verbatim>\<open>{*\<close>: the run of asterisks when there is one (a shorter run would leave an asterisk
  where the name has to start), else one of \<^verbatim>\<open>? ! & #\<close>, else nothing. The result is
  the modifier and the text after it.
\<close>

definition modifierMatch :: "string \<Rightarrow> string \<times> string" where
  "modifierMatch r =
     (case r of
        [] \<Rightarrow> ([], [])
      | c # r' \<Rightarrow>
          if c = CHR ''*'' then (takeWhile (\<lambda>x. x = CHR ''*'') r, dropWhile (\<lambda>x. x = CHR ''*'') r)
          else if c \<in> {CHR ''?'', CHR ''!'', CHR ''&'', CHR ''#''} then ([c], r')
          else ([], r))"

text \<open>
  \<^verbatim>\<open>_fieldPartRe.match(text)\<close> for \<^verbatim>\<open>{\*(\**|\?|!|&|#)([\w_\-.]+)\*}\<close>: the match is
  anchored at the start of the text only. The result is the modifier (group 1), the
  field name (group 2, the longest run of name characters, which must not be empty) and
  the text after the match. \<^verbatim>\<open>_fieldSplitRe\<close> is the same pattern.
\<close>

definition fieldMatch :: "string \<Rightarrow> (string \<times> string \<times> string) option" where
  "fieldMatch s =
     (case s of
        c1 # c2 # r \<Rightarrow>
          if c1 = CHR ''{'' \<and> c2 = CHR ''*'' then
            (let (modifier, r1) = modifierMatch r;
                 fieldName = takeWhile isnamechar r1;
                 r2 = dropWhile isnamechar r1
             in if fieldName = [] then None
                else (case r2 of
                        d1 # d2 # rest \<Rightarrow>
                          if d1 = CHR ''*'' \<and> d2 = CHR ''}'' then Some (modifier, fieldName, rest)
                          else None
                      | _ \<Rightarrow> None))
          else None
      | _ \<Rightarrow> None)"

text \<open>The text of a field reference with the given modifier and field name.\<close>

definition fieldRef :: "string \<Rightarrow> string \<Rightarrow> string" where
  "fieldRef modifier fieldName = ''{*'' @ modifier @ fieldName @ ''*}''"

lemma modifierMatch_app: "modifierMatch r = (m, r1) \<Longrightarrow> r = m @ r1"
  by (auto simp: modifierMatch_def split: list.splits if_splits)

lemma fieldMatch_text:
  assumes "fieldMatch s = Some (m, n, rest)"
  shows "s = fieldRef m n @ rest"
proof -
  from assms obtain r where s: "s = CHR ''{'' # CHR ''*'' # r"
    by (auto simp: fieldMatch_def split: list.splits if_splits)
  obtain m' r1 where mm: "modifierMatch r = (m', r1)" by (cases "modifierMatch r")
  from assms s mm have m: "m' = m" and n: "n = takeWhile isnamechar r1"
    and r2: "dropWhile isnamechar r1 = CHR ''*'' # CHR ''}'' # rest"
    by (auto simp: fieldMatch_def Let_def split: list.splits if_splits)
  have "r1 = n @ CHR ''*'' # CHR ''}'' # rest"
    using n r2 takeWhile_dropWhile_id [of isnamechar r1] by simp
  with modifierMatch_app [OF mm] m s show ?thesis
    by (simp add: fieldRef_def)
qed

lemma fieldMatch_shorter: "fieldMatch s = Some (m, n, rest) \<Longrightarrow> length rest < length s"
  by (drule fieldMatch_text) (simp add: fieldRef_def)

text \<open>
  \<^verbatim>\<open>_fieldSplitRe.split(text)\<close>: the pattern is one capturing group, so the result
  alternates the text between two matches with the text of a match. The scan tries the
  pattern at each position from the left and goes on after a match; \<open>acc\<close> is the text
  passed over since the last match.
\<close>

function fieldSplit :: "string \<Rightarrow> string \<Rightarrow> string list" where
  "fieldSplit acc [] = [acc]"
| "fieldSplit acc (c # cs) =
     (case fieldMatch (c # cs) of
        Some (m, n, rest) \<Rightarrow> acc # fieldRef m n # fieldSplit [] rest
      | None \<Rightarrow> fieldSplit (acc @ [c]) cs)"
  by pat_completeness auto
termination
  by (relation "measure (\<lambda>(acc, s). length s)") (auto dest: fieldMatch_shorter)

text \<open>
  \<^verbatim>\<open>parseField\<close>: the field object when the text starts with a field reference with no
  modifier whose name is a key of \<^verbatim>\<open>fieldDict\<close>, the text itself otherwise (the
  \<^verbatim>\<open>KeyError\<close> of the lookup is caught).
\<close>

definition parseField :: "(string \<times> field) list \<Rightarrow> string \<Rightarrow> part" where
  "parseField fieldDict text =
     (case fieldMatch text of
        Some (modifier, fieldName, rest) \<Rightarrow>
          if modifier = [] then
            (case map_of fieldDict fieldName of
               Some f \<Rightarrow> FieldPart f
             | None \<Rightarrow> TextPart text)
          else TextPart text
      | None \<Rightarrow> TextPart text)"

text \<open>\<^verbatim>\<open>parseLine\<close>: normalise the white space, split, drop the empty segments, parse each.\<close>

definition parseLine :: "(string \<times> field) list \<Rightarrow> string \<Rightarrow> part list" where
  "parseLine fieldDict text =
     map (parseField fieldDict) (filter (\<lambda>p. p \<noteq> []) (fieldSplit [] (normalize_ws text)))"

section \<open>The format of a node type\<close>

text \<open>
  Modelled from the spec: \<^verbatim>\<open>sepName\<close> of a field object, a method of the module
  \<^verbatim>\<open>fieldformat\<close>, which is not among the sources. The spec: each field token serializes
  back to its canonical \<^verbatim>\<open>{*name*}\<close> form.
\<close>

definition sepName :: "field \<Rightarrow> string" where
  "sepName f = ''{*'' @ name f @ ''*}''"

text \<open>
  The comprehension \<^verbatim>\<open>part.sepName() if hasattr(part, 'sepName') else part\<close> and the
  \<^verbatim>\<open>''.join\<close> around it, shared by \<^verbatim>\<open>getTitleLine\<close> and \<^verbatim>\<open>getOutputLines\<close>.
\<close>

definition partText :: "part \<Rightarrow> string" where
  "partText p = (case p of FieldPart f \<Rightarrow> sepName f | TextPart t \<Rightarrow> t)"

definition lineText :: "part list \<Rightarrow> string" where
  "lineText line = concat (map partText line)"

text \<open>
  The attributes of a \<^verbatim>\<open>NodeFormat\<close>. \<open>formatname\<close> is the attribute \<^verbatim>\<open>name\<close>; the
  ordered dictionary \<^verbatim>\<open>fieldDict\<close> is an association list in insertion order.
\<close>

record nodeformat =
  formatname :: string
  fieldDict :: "(string \<times> field) list"
  titleLine :: "part list"
  outputLines :: "part list list"
  origOutputLines :: "part list list"
  spaceBetween :: bool
  formatHtml :: bool
  useBullets :: bool
  useTables :: bool
  childType :: string
  iconName :: string
  outputSeparator :: string
  siblingPrefix :: string
  siblingSuffix :: string

definition getTitleLine :: "nodeformat \<Rightarrow> string" where
  "getTitleLine fmt = lineText (titleLine fmt)"

definition getOutputLines :: "nodeformat \<Rightarrow> bool \<Rightarrow> string list" where
  "getOutputLines fmt useOriginal =
     (let lines = (if useOriginal \<and> origOutputLines fmt \<noteq> [] then origOutputLines fmt
                   else outputLines fmt);
          texts = map lineText lines
      in if texts \<noteq> [] then texts else [[]])"

text \<open>
  \<^verbatim>\<open>addField\<close> stores a field object under its own name
  (\<^verbatim>\<open>field = fieldClass(name, fieldData); self.fieldDict[name] = field\<close>): every key of
  the field table is the name of the field it holds.
\<close>

definition fieldDict_ok :: "(string \<times> field) list \<Rightarrow> bool" where
  "fieldDict_ok fd = (\<forall>(k, f) \<in> set fd. name f = k)"

text \<open>
  A segment is well delimited when the field pattern either does not match at its start
  or matches all of it.
\<close>

definition segment_ok :: "string \<Rightarrow> bool" where
  "segment_ok seg = (case fieldMatch seg of None \<Rightarrow> True | Some (m, n, rest) \<Rightarrow> rest = [])"

section \<open>Rendering the output lines of a node\<close>

text \<open>
  \<^verbatim>\<open>xml.sax.saxutils.escape(part)\<close> of the standard library:
  \<^verbatim>\<open>data.replace("&", "&amp;").replace(">", "&gt;").replace("<", "&lt;")\<close>.
\<close>

definition replaceChar :: "char \<Rightarrow> string \<Rightarrow> string \<Rightarrow> string" where
  "replaceChar c r s = concat (map (\<lambda>x. if x = c then r else [x]) s)"

definition xml_escape :: "string \<Rightarrow> string" where
  "xml_escape s =
     replaceChar CHR ''<'' ''&lt;'' (replaceChar CHR ''>'' ''&gt;'' (replaceChar CHR ''&'' ''&amp;'' s))"

text \<open>
  The group of \<^verbatim>\<open>_endTagRe\<close>, \<^verbatim>\<open>(<br[ /]*?>|<BR[ /]*?>|<hr[ /]*?>|<HR[ /]*?>)\<close>, followed by
  \<^verbatim>\<open>$\<close>, tried at the start of the text: one of the four openings, a run of spaces and
  slashes, \<^verbatim>\<open>>\<close>, and then the end of the text or one last newline. The result is the
  text of the group.
\<close>

definition endTagAt :: "string \<Rightarrow> string option" where
  "endTagAt s =
     (if take 3 s \<in> {''<br'', ''<BR'', ''<hr'', ''<HR''} then
        (let fill = takeWhile (\<lambda>c. c = CHR '' '' \<or> c = CHR ''/'') (drop 3 s);
             r = dropWhile (\<lambda>c. c = CHR '' '' \<or> c = CHR ''/'') (drop 3 s)
         in case r of
              [] \<Rightarrow> None
            | c # r' \<Rightarrow>
                if c = CHR ''>'' \<and> (r' = [] \<or> r' = [CHR 0x0A]) then Some (take 3 s @ fill @ ''>'')
                else None)
      else None)"

text \<open>
  \<^verbatim>\<open>_endTagRe.match(line)\<close> for \<^verbatim>\<open>.*(...)$\<close>: the greedy \<^verbatim>\<open>.*\<close> first takes one more
  character (any but a newline) and only then lets the group start here. The result is
  \<^verbatim>\<open>group(1)\<close>.
\<close>

fun endTagRe_match :: "string \<Rightarrow> string option" where
  "endTagRe_match [] = endTagAt []"
| "endTagRe_match (c # cs) =
     (case (if c = CHR 0x0A then None else endTagRe_match cs) of
        Some tag \<Rightarrow> Some tag
      | None \<Rightarrow> endTagAt (c # cs))"

text \<open>
  \<^verbatim>\<open>outputText(node, plainText, formatHtml)\<close> of a field object and \<^verbatim>\<open>removeMarkup\<close> belong
  to the module \<^verbatim>\<open>fieldformat\<close>; \<^verbatim>\<open>formatOutput\<close> takes them as parameters. The type
  \<open>'n\<close> is the type of nodes.
\<close>

type_synonym 'n outputText = "field \<Rightarrow> 'n \<Rightarrow> bool \<Rightarrow> bool \<Rightarrow> string"

text \<open>
  The body of the inner loop of \<^verbatim>\<open>formatOutput\<close>; the state is
  \<^verbatim>\<open>(line, numEmptyFields, numFullFields)\<close>.
\<close>

definition partStep ::
  "'n outputText \<Rightarrow> (string \<Rightarrow> string) \<Rightarrow> bool \<Rightarrow> 'n \<Rightarrow> bool \<Rightarrow>
   string \<times> nat \<times> nat \<Rightarrow> part \<Rightarrow> string \<times> nat \<times> nat" where
  "partStep outputText removeMarkup fmtHtml node plainText st p =
     (case st of (line, numEmptyFields, numFullFields) \<Rightarrow>
        (case p of
           FieldPart f \<Rightarrow>
             (let text = outputText f node plainText fmtHtml
              in if text \<noteq> [] then (line @ text, numEmptyFields, numFullFields + 1)
                 else (line @ text, numEmptyFields + 1, numFullFields))
         | TextPart t \<Rightarrow>
             (let t' = (if \<not> fmtHtml \<and> \<not> plainText then xml_escape t
                        else if fmtHtml \<and> plainText then removeMarkup t
                        else t)
              in (line @ t', numEmptyFields, numFullFields))))"

definition renderLine ::
  "'n outputText \<Rightarrow> (string \<Rightarrow> string) \<Rightarrow> bool \<Rightarrow> 'n \<Rightarrow> bool \<Rightarrow> part list \<Rightarrow>
   string \<times> nat \<times> nat" where
  "renderLine outputText removeMarkup fmtHtml node plainText lineData =
     foldl (partStep outputText removeMarkup fmtHtml node plainText) ([], 0, 0) lineData"

text \<open>The body of the outer loop: the rendered line is kept, or dropped with its end tag saved.\<close>

definition lineStep ::
  "'n outputText \<Rightarrow> (string \<Rightarrow> string) \<Rightarrow> bool \<Rightarrow> 'n \<Rightarrow> bool \<Rightarrow> bool \<Rightarrow>
   string list \<Rightarrow> part list \<Rightarrow> string list" where
  "lineStep outputText removeMarkup fmtHtml node plainText keepBlanks result lineData =
     (case renderLine outputText removeMarkup fmtHtml node plainText lineData of
        (line, numEmptyFields, numFullFields) \<Rightarrow>
          if keepBlanks \<or> numFullFields \<noteq> 0 \<or> numEmptyFields = 0 then result @ [line]
          else if fmtHtml \<and> \<not> plainText \<and> result \<noteq> [] then
            (case endTagRe_match line of
               Some tag \<Rightarrow> butlast result @ [last result @ tag]
             | None \<Rightarrow> result)
          else result)"

definition formatOutput ::
  "'n outputText \<Rightarrow> (string \<Rightarrow> string) \<Rightarrow> nodeformat \<Rightarrow> 'n \<Rightarrow> bool \<Rightarrow> bool \<Rightarrow> string list" where
  "formatOutput outputText removeMarkup fmt node plainText keepBlanks =
     foldl (lineStep outputText removeMarkup (formatHtml fmt) node plainText keepBlanks) []
       (outputLines fmt)"

text \<open>
  The rule of the specification, in its words: the texts the field tokens of a line render to,
  and the condition under which the line is kept.
\<close>

definition fieldTexts :: "'n outputText \<Rightarrow> bool \<Rightarrow> 'n \<Rightarrow> bool \<Rightarrow> part list \<Rightarrow> string list" where
  "fieldTexts outputText fmtHtml node plainText lineData =
     concat (map (\<lambda>p. case p of FieldPart f \<Rightarrow> [outputText f node plainText fmtHtml] | TextPart t \<Rightarrow> [])
       lineData)"

definition lineKept :: "'n outputText \<Rightarrow> bool \<Rightarrow> 'n \<Rightarrow> bool \<Rightarrow> bool \<Rightarrow> part list \<Rightarrow> bool" where
  "lineKept outputText fmtHtml node plainText keepBlanks lineData =
     (keepBlanks \<or> (\<exists>t \<in> set (fieldTexts outputText fmtHtml node plainText lineData). t \<noteq> []) \<or>
      fieldTexts outputText fmtHtml node plainText lineData = [])"


text \<open>
  Values for examples: a text field, the capability that renders the text stored in the
  node's data under the field's name, and the format \<^verbatim>\<open>NodeFormat(name)\<close> starts from
  (the defaults of \<^verbatim>\<open>readFormat\<close>, no field, no line).
\<close>

definition textField :: "string \<Rightarrow> field" where
  "textField n = \<lparr>name = n, fieldtype = ''Text''\<rparr>"

definition storedText :: "(string \<Rightarrow> string option) outputText" where
  "storedText f node plainText fmtHtml = (case node (name f) of Some v \<Rightarrow> v | None \<Rightarrow> [])"

definition emptyFormat :: "string \<Rightarrow> nodeformat" where
  "emptyFormat n =
     \<lparr>formatname = n, fieldDict = [], titleLine = [], outputLines = [], origOutputLines = [],
      spaceBetween = True, formatHtml = False, useBullets = False, useTables = False,
      childType = [], iconName = [], outputSeparator = '', '', siblingPrefix = [],
      siblingSuffix = []\<rparr>"

section \<open>Reading field values back from a title\<close>

text \<open>The exceptions of the source that the model follows.\<close>

datatype py_error = ValueError | IndexError | KeyError | AttributeError | RecursionError

text \<open>
  \<^verbatim>\<open>field.storedTextFromTitle(text)\<close> belongs to the module \<^verbatim>\<open>fieldformat\<close> and can raise
  (\<^verbatim>\<open>extractTitleData\<close> catches \<^verbatim>\<open>ValueError\<close>); it is a parameter.
\<close>

type_synonym storedTextFromTitle = "field \<Rightarrow> string \<Rightarrow> py_error + string"

text \<open>
  \<^verbatim>\<open>re.match(pattern, titleString)\<close> for the pattern the loop builds: \<^verbatim>\<open>(.*)\<close> for a field
  segment, \<^verbatim>\<open>re.escape(seg)\<close>, which matches the text of \<^verbatim>\<open>seg\<close> and nothing else, for a
  text segment. The match is anchored at the start of the title only. A group is greedy:
  it first takes one more character (any but a newline) and gives characters back, one at
  a time, when the rest of the pattern fails. The result is the list of the groups.
\<close>

fun titleMatch :: "part list \<Rightarrow> string \<Rightarrow> string list option"
  and groupMatch :: "part list \<Rightarrow> string \<Rightarrow> string list option" where
  "titleMatch [] s = Some []"
| "titleMatch (TextPart t # ps) s =
     (if take (length t) s = t then titleMatch ps (drop (length t) s) else None)"
| "titleMatch (FieldPart f # ps) s = groupMatch ps s"
| "groupMatch ps [] = map_option (\<lambda>gs. [] # gs) (titleMatch ps [])"
| "groupMatch ps (c # cs) =
     (case (if c = CHR 0x0A then None else groupMatch ps cs) of
        Some (g # gs) \<Rightarrow> Some ((c # g) # gs)
      | _ \<Rightarrow> map_option (\<lambda>gs. [] # gs) (titleMatch ps (c # cs)))"

text \<open>
  The loop \<^verbatim>\<open>for num, field in enumerate(fields)\<close>: each field's entry of \<^verbatim>\<open>data\<close> is
  written as soon as its text is read; an exception leaves the loop with the entries
  written so far. (The pattern has one group per field, so the second equation, the
  \<^verbatim>\<open>IndexError\<close> of \<^verbatim>\<open>match.group\<close>, is never reached from \<^verbatim>\<open>extractTitleData\<close>.)
\<close>

fun assignGroups ::
  "storedTextFromTitle \<Rightarrow> field list \<Rightarrow> string list \<Rightarrow> (string \<Rightarrow> string option) \<Rightarrow>
   py_error option \<times> (string \<Rightarrow> string option)" where
  "assignGroups sft [] groups data = (None, data)"
| "assignGroups sft (f # fs) [] data = (Some IndexError, data)"
| "assignGroups sft (f # fs) (text # groups) data =
     (case sft f text of
        Inl e \<Rightarrow> (Some e, data)
      | Inr v \<Rightarrow> assignGroups sft fs groups (data(name f \<mapsto> v)))"

text \<open>
  \<^verbatim>\<open>extractTitleData\<close>: the value returned (or the exception that leaves the function) and
  the data dictionary as the call leaves it. \<^verbatim>\<open>fields[0]\<close> raises \<^verbatim>\<open>IndexError\<close> when
  the title line has no field.
\<close>

definition extractTitleData ::
  "storedTextFromTitle \<Rightarrow> nodeformat \<Rightarrow> string \<Rightarrow> (string \<Rightarrow> string option) \<Rightarrow>
   (py_error + bool) \<times> (string \<Rightarrow> string option)" where
  "extractTitleData sft fmt titleString data =
     (let fields = concat (map (\<lambda>seg. case seg of FieldPart f \<Rightarrow> [f] | TextPart t \<Rightarrow> []) (titleLine fmt));
          extraText = concat (map (\<lambda>seg. case seg of FieldPart f \<Rightarrow> [] | TextPart t \<Rightarrow> t) (titleLine fmt))
      in case titleMatch (titleLine fmt) titleString of
           Some groups \<Rightarrow>
             (case assignGroups sft fields groups data of
                (None, data') \<Rightarrow> (Inr True, data')
              | (Some ValueError, data') \<Rightarrow> (Inr False, data')
              | (Some e, data') \<Rightarrow> (Inl e, data'))
         | None \<Rightarrow>
             if py_strip extraText = [] then
               (case fields of
                  [] \<Rightarrow> (Inl IndexError, data)
                | f0 # rest \<Rightarrow>
                    (case sft f0 titleString of
                       Inl ValueError \<Rightarrow> (Inr False, data)
                     | Inl e \<Rightarrow> (Inl e, data)
                     | Inr text \<Rightarrow>
                         (Inr True, fold (\<lambda>f d. d(name f \<mapsto> [])) rest (data(name f0 \<mapsto> text)))))
             else (Inr False, data))"

text \<open>
  A value for examples: a capability that stores the title text as it is, and for a field
  of type \<^verbatim>\<open>Number\<close> raises \<^verbatim>\<open>ValueError\<close> on a text that is not a run of digits.
\<close>

definition textOrNumberFromTitle :: storedTextFromTitle where
  "textOrNumberFromTitle f text =
     (if fieldtype f = ''Number'' \<and> (text = [] \<or> (\<exists>c \<in> set text. c \<notin> set ''0123456789''))
      then Inl ValueError else Inr text)"

section \<open>Bullets and tables\<close>

text \<open>
  \<^verbatim>\<open>updateLineParsing\<close>: the three assignments in the order of the source, each reading
  the attributes as the one before left them.
\<close>

definition updateLineParsing :: "nodeformat \<Rightarrow> nodeformat" where
  "updateLineParsing fmt =
     (let fmt1 = fmt\<lparr>titleLine := parseLine (fieldDict fmt) (getTitleLine fmt)\<rparr>;
          fmt2 = fmt1\<lparr>outputLines := map (parseLine (fieldDict fmt1)) (getOutputLines fmt1 False)\<rparr>
      in if origOutputLines fmt2 \<noteq> [] then
           fmt2\<lparr>origOutputLines := map (parseLine (fieldDict fmt2)) (getOutputLines fmt2 True)\<rparr>
         else fmt2)"

text \<open>
  \<^verbatim>\<open>addBullets\<close> and \<^verbatim>\<open>addTables\<close> store plain strings in \<^verbatim>\<open>outputLines\<close> before they call
  \<^verbatim>\<open>updateLineParsing\<close>. To \<^verbatim>\<open>getOutputLines\<close> a string is the sequence of its
  characters, each a string of length one with no \<^verbatim>\<open>sepName\<close>.
\<close>

definition asParts :: "string \<Rightarrow> part list" where
  "asParts s = map (\<lambda>c. TextPart [c]) s"

definition addBullets :: "nodeformat \<Rightarrow> nodeformat" where
  "addBullets fmt =
     (let fmt1 = fmt\<lparr>siblingPrefix := ''<ul>'', siblingSuffix := ''</ul>''\<rparr>;
          lines = getOutputLines fmt1 True;
          lines' = (if lines \<noteq> [[]] then
                      (let l1 = lines[0 := ''<li>'' @ lines ! 0]
                       in l1[length l1 - 1 := l1 ! (length l1 - 1) @ ''</li>''])
                    else lines);
          fmt2 = fmt1\<lparr>origOutputLines := outputLines fmt1\<rparr>;
          fmt3 = fmt2\<lparr>outputLines := map asParts lines'\<rparr>
      in updateLineParsing fmt3)"

text \<open>
  The loop of \<^verbatim>\<open>addTables\<close> over the lines: the new lines and the headings.
  \<^verbatim>\<open>parseLine(line)[0]\<close> raises \<^verbatim>\<open>IndexError\<close> on a line with no part, and the unpacking
  of \<^verbatim>\<open>line.split(':', 1)\<close> raises \<^verbatim>\<open>ValueError\<close> on a line with no colon.
\<close>

fun tableLines ::
  "(string \<times> field) list \<Rightarrow> string list \<Rightarrow> py_error + (string list \<times> string list)" where
  "tableLines fd [] = Inr ([], [])"
| "tableLines fd (line # lines) =
     (case parseLine fd line of
        [] \<Rightarrow> Inl IndexError
      | firstPart # ps \<Rightarrow>
          (case (case firstPart of
                   TextPart t \<Rightarrow>
                     if CHR '':'' \<in> set t then
                       (if CHR '':'' \<in> set line
                        then Inr (takeWhile (\<lambda>c. c \<noteq> CHR '':'') line,
                                  tl (dropWhile (\<lambda>c. c \<noteq> CHR '':'') line))
                        else Inl ValueError)
                     else Inr ([], line)
                 | FieldPart f \<Rightarrow> Inr ([], line)) of
             Inl e \<Rightarrow> Inl e
           | Inr (head, line') \<Rightarrow>
               (case tableLines fd lines of
                  Inl e \<Rightarrow> Inl e
                | Inr (newLines, headings) \<Rightarrow>
                    Inr (py_strip line' # newLines, py_strip head # headings))))"

text \<open>
  \<^verbatim>\<open>addTables\<close>: the format as the call leaves it, or the exception with the format at
  that point (\<^verbatim>\<open>newLines[0]\<close> raises \<^verbatim>\<open>IndexError\<close> when no line has text, after the
  sibling prefix and suffix are set).
\<close>

definition addTables :: "nodeformat \<Rightarrow> py_error \<times> nodeformat + nodeformat" where
  "addTables fmt =
     (let lines = filter (\<lambda>line. line \<noteq> []) (getOutputLines fmt True)
      in case tableLines (fieldDict fmt) lines of
           Inl e \<Rightarrow> Inl (e, fmt)
         | Inr (newLines, headings) \<Rightarrow>
             (let prefix0 = ''<table border='' @ [CHR 0x22] @ ''1'' @ [CHR 0x22] @ '' cellpadding=''
                              @ [CHR 0x22] @ ''3'' @ [CHR 0x22] @ ''>'';
                  prefix1 = (if filter (\<lambda>head. head \<noteq> []) headings \<noteq> [] then
                               foldl (\<lambda>p head. p @ ''<th>'' @ head @ ''</th>'') (prefix0 @ ''<tr>'') headings
                                 @ ''</tr>''
                             else prefix0);
                  fmt1 = fmt\<lparr>siblingPrefix := prefix1, siblingSuffix := ''</table>''\<rparr>;
                  cells = map (\<lambda>line. ''<td>'' @ line @ ''</td>'') newLines
              in if cells = [] then Inl (IndexError, fmt1)
                 else
                   (let c1 = cells[0 := ''<tr>'' @ cells ! 0];
                        c2 = c1[length c1 - 1 := c1 ! (length c1 - 1) @ ''</tr>''];
                        fmt2 = fmt1\<lparr>origOutputLines := outputLines fmt1\<rparr>;
                        fmt3 = fmt2\<lparr>outputLines := map asParts c2\<rparr>
                    in Inr (updateLineParsing fmt3))))"

definition clearBulletsAndTables :: "nodeformat \<Rightarrow> nodeformat" where
  "clearBulletsAndTables fmt =
     (let fmt1 = fmt\<lparr>siblingPrefix := [], siblingSuffix := []\<rparr>;
          fmt2 = (if origOutputLines fmt1 \<noteq> [] then
                    updateLineParsing (fmt1\<lparr>outputLines := origOutputLines fmt1\<rparr>)
                  else fmt1)
      in fmt2\<lparr>origOutputLines := []\<rparr>)"

text \<open>
  The output lines are in compiled form: parsing the text of a line gives the line, as it
  does for every line \<^verbatim>\<open>parseLine\<close> made with this field table.
\<close>

definition linesCompiled :: "nodeformat \<Rightarrow> bool" where
  "linesCompiled fmt = (\<forall>l \<in> set (outputLines fmt). parseLine (fieldDict fmt) (lineText l) = l)"

text \<open>
  A value for examples: the type \<^verbatim>\<open>Item\<close> with the fields \<^verbatim>\<open>Name\<close> and \<^verbatim>\<open>Qty\<close> and the
  output lines \<^verbatim>\<open>Name: {*Name*}\<close> and \<^verbatim>\<open>{*Qty*} pieces\<close>.
\<close>

definition itemFormat :: nodeformat where
  "itemFormat = (emptyFormat ''Item'')\<lparr>
     fieldDict := [(''Name'', textField ''Name''), (''Qty'', textField ''Qty'')],
     outputLines := [[TextPart ''Name: '', FieldPart (textField ''Name'')],
                     [FieldPart (textField ''Qty''), TextPart '' pieces'']]\<rparr>"

section \<open>The tree structure\<close>

text \<open>
  Nodes are objects: a reference stands for the identity of a \<^verbatim>\<open>TreeNode\<close> object and the
  heap gives the attributes of each object. A \<^verbatim>\<open>TreeSpot\<close> is the node it shows and the
  spot of the parent it shows it under (\<^verbatim>\<open>None\<close> for a top-level node). \<^verbatim>\<open>spotRefs\<close>, a
  set in the source, is a list without repetitions whose order carries no meaning.
\<close>

type_synonym ref = nat

datatype spot = Spot (nodeRef: ref) (parentSpot: "spot option")

record treenode =
  uId :: string
  formatRef :: "string option"
  data :: "string \<Rightarrow> string option"
  childList :: "ref list"
  spotRefs :: "spot list"

type_synonym heap = "ref \<Rightarrow> treenode"

text \<open>
  \<^verbatim>\<open>TreeStructure\<close> inherits \<^verbatim>\<open>TreeNode\<close>: its \<^verbatim>\<open>childList\<close> holds the top-level nodes.
  The dictionaries \<^verbatim>\<open>nodeDict\<close> and \<^verbatim>\<open>treeFormats\<close> are association lists in insertion
  order (\<^verbatim>\<open>d[k] = v\<close> is \<open>AList.update\<close>, \<^verbatim>\<open>del d[k]\<close> is \<open>AList.delete\<close>).
\<close>

record treestructure = treenode +
  nodeDict :: "(string \<times> ref) list"
  treeFormats :: "(string \<times> nodeformat) list"

text \<open>
  \<^verbatim>\<open>replaceDuplicateIds\<close>: the loop over \<^verbatim>\<open>list(self.nodeDict.values())\<close>. The state is the
  number of ids minted so far, the heap and the structure; \<open>uuid\<close> gives the id
  \<^verbatim>\<open>uuid.uuid1().hex\<close> returns at each call. \<^verbatim>\<open>del self.nodeDict[node.uId]\<close> raises
  \<^verbatim>\<open>KeyError\<close> when the key is missing.
\<close>

fun replaceLoop ::
  "(nat \<Rightarrow> string) \<Rightarrow> string set \<Rightarrow> ref list \<Rightarrow> nat \<times> heap \<times> treestructure \<Rightarrow>
   py_error + nat \<times> heap \<times> treestructure" where
  "replaceLoop uuid duplicateDict [] st = Inr st"
| "replaceLoop uuid duplicateDict (node # rest) (n, h, self) =
     (if uId (h node) \<in> duplicateDict then
        (if uId (h node) \<in> fst ` set (nodeDict self) then
           (let d1 = AList.delete (uId (h node)) (nodeDict self);
                h' = h(node := (h node)\<lparr>uId := uuid n\<rparr>);
                d2 = AList.update (uId (h' node)) node d1
            in replaceLoop uuid duplicateDict rest (Suc n, h', self\<lparr>nodeDict := d2\<rparr>))
         else Inl KeyError)
      else replaceLoop uuid duplicateDict rest (n, h, self))"

definition replaceDuplicateIds ::
  "(nat \<Rightarrow> string) \<Rightarrow> string set \<Rightarrow> nat \<times> heap \<times> treestructure \<Rightarrow>
   py_error + nat \<times> heap \<times> treestructure" where
  "replaceDuplicateIds uuid duplicateDict st =
     (case st of (n, h, self) \<Rightarrow> replaceLoop uuid duplicateDict (map snd (nodeDict self)) st)"

text \<open>
  The identity table of a structure: no key twice, and every node under its own id
  (\<^verbatim>\<open>self.nodeDict[node.uId] = node\<close> is the only way the source fills the table).
\<close>

definition nodeDict_ok :: "heap \<Rightarrow> (string \<times> ref) list \<Rightarrow> bool" where
  "nodeDict_ok h d = (distinct (map fst d) \<and> (\<forall>(k, r) \<in> set d. uId (h r) = k))"

text \<open>
  The ids minted from the \<open>n\<close>-th call on are unique: no two calls return the same id,
  and none returns an id in \<open>used\<close>.
\<close>

definition fresh_ids :: "(nat \<Rightarrow> string) \<Rightarrow> nat \<Rightarrow> string set \<Rightarrow> bool" where
  "fresh_ids uuid n used = ((\<forall>i j. uuid i = uuid j \<longrightarrow> i = j) \<and> (\<forall>i\<ge>n. uuid i \<notin> used))"

text \<open>
  The invariant of the loop: \<open>rs\<close> are the nodes still to visit, and every node whose key
  is a duplicate is among them.
\<close>

definition loop_inv ::
  "(nat \<Rightarrow> string) \<Rightarrow> string set \<Rightarrow> nat \<Rightarrow> heap \<Rightarrow> (string \<times> ref) list \<Rightarrow> ref list \<Rightarrow> bool" where
  "loop_inv uuid dup n h d rs =
     (nodeDict_ok h d \<and> set rs \<subseteq> snd ` set d \<and> fresh_ids uuid n (fst ` set d \<union> dup) \<and>
      (\<forall>(k, r) \<in> set d. k \<in> dup \<longrightarrow> r \<in> set rs))"

text \<open>
  Values for examples: a node with no data, a structure with no format, and a stream of
  ids.
\<close>

definition plainNode :: "string \<Rightarrow> ref list \<Rightarrow> spot list \<Rightarrow> treenode" where
  "plainNode u children spots =
     \<lparr>uId = u, formatRef = Some ''Item'', data = Map.empty, childList = children, spotRefs = spots\<rparr>"

definition structOf :: "ref list \<Rightarrow> (string \<times> ref) list \<Rightarrow> treestructure" where
  "structOf tops d =
     \<lparr>uId = ''root'', formatRef = None, data = Map.empty, childList = tops, spotRefs = [],
      nodeDict = d, treeFormats = []\<rparr>"

definition uuidExample :: "nat \<Rightarrow> string" where
  "uuidExample i = replicate (Suc i) CHR ''u''"

text \<open>
  Modelled from the spec: \<^verbatim>\<open>addTypeIfMissing\<close> of the module \<^verbatim>\<open>treeformats\<close>, which is not
  among the sources. The spec: format types are unioned by name; a type missing here is
  copied in, a same-named type already present is not overwritten.
\<close>

definition addTypeIfMissing ::
  "(string \<times> nodeformat) list \<Rightarrow> nodeformat \<Rightarrow> (string \<times> nodeformat) list" where
  "addTypeIfMissing formats nodeFormat =
     (if formatname nodeFormat \<in> fst ` set formats then formats
      else AList.update (formatname nodeFormat) nodeFormat formats)"

text \<open>
  The argument \<^verbatim>\<open>parent\<close> of \<^verbatim>\<open>addNodesFromStruct\<close>: the structure itself, a node, or
  \<^verbatim>\<open>None\<close>, which the loop assigns to it.
\<close>

datatype parent = Self | Node ref | PyNone

text \<open>
  \<^verbatim>\<open>node.addSpotRef(parent)\<close> belongs to the module \<^verbatim>\<open>treenode\<close>, which is not among the
  sources; it works on node objects only and is a parameter: the node, the parent node
  (\<^verbatim>\<open>None\<close> for the top level) and the heap.
\<close>

type_synonym addSpotRef = "ref \<Rightarrow> ref option \<Rightarrow> heap \<Rightarrow> heap"

text \<open>\<^verbatim>\<open>childList.insert(position, node)\<close> for \<^verbatim>\<open>position >= 0\<close>, \<^verbatim>\<open>append\<close> otherwise.\<close>

definition list_insert :: "int \<Rightarrow> 'a \<Rightarrow> 'a list \<Rightarrow> 'a list" where
  "list_insert position x xs =
     (if position \<ge> 0 then take (nat position) xs @ [x] @ drop (nat position) xs else xs @ [x])"

text \<open>
  The last loop of \<^verbatim>\<open>addNodesFromStruct\<close>. After the first node put under the structure
  itself, \<^verbatim>\<open>parent\<close> is \<^verbatim>\<open>None\<close>, and \<^verbatim>\<open>parent.childList\<close> raises \<^verbatim>\<open>AttributeError\<close> for
  the next node.
\<close>

fun addChildren ::
  "addSpotRef \<Rightarrow> ref list \<Rightarrow> parent \<Rightarrow> int \<Rightarrow> heap \<times> treestructure \<Rightarrow>
   py_error \<times> heap \<times> treestructure + heap \<times> treestructure" where
  "addChildren asr [] parent position st = Inr st"
| "addChildren asr (node # rest) parent position (h, self) =
     (case parent of
        PyNone \<Rightarrow> Inl (AttributeError, h, self)
      | Self \<Rightarrow>
          addChildren asr rest PyNone (if position \<ge> 0 then position + 1 else position)
            (asr node None h, self\<lparr>childList := list_insert position node (childList self)\<rparr>)
      | Node p \<Rightarrow>
          addChildren asr rest (Node p) (if position \<ge> 0 then position + 1 else position)
            (asr node (Some p)
               (h(p := (h p)\<lparr>childList := list_insert position node (childList (h p))\<rparr>)),
             self))"

text \<open>
  \<^verbatim>\<open>addNodesFromStruct\<close>: the state as the call leaves it, or the exception with the state
  at that point.
\<close>

definition addNodesFromStruct ::
  "addSpotRef \<Rightarrow> treestructure \<Rightarrow> parent \<Rightarrow> int \<Rightarrow> heap \<times> treestructure \<Rightarrow>
   py_error \<times> heap \<times> treestructure + heap \<times> treestructure" where
  "addNodesFromStruct asr treeStruct parent position st =
     (case st of (h, self) \<Rightarrow>
        (let self1 = self\<lparr>treeFormats :=
                        foldl addTypeIfMissing (treeFormats self) (map snd (treeFormats treeStruct))\<rparr>;
             self2 = self1\<lparr>nodeDict :=
                        foldl (\<lambda>d node. AList.update (uId (h node)) node d) (nodeDict self1)
                          (map snd (nodeDict treeStruct))\<rparr>
         in addChildren asr (childList treeStruct) parent position (h, self2)))"

definition endState ::
  "py_error \<times> heap \<times> treestructure + heap \<times> treestructure \<Rightarrow> heap \<times> treestructure" where
  "endState res = (case res of Inl (e, st) \<Rightarrow> st | Inr st \<Rightarrow> st)"

text \<open>A value for examples: an \<^verbatim>\<open>addSpotRef\<close> that leaves the heap as it is.\<close>

definition noSpots :: addSpotRef where
  "noSpots node parentNode h = h"

text \<open>
  The child list after the nodes \<open>ys\<close> are put in one after the other, the first at
  \<^verbatim>\<open>position\<close>, each next one place further (at the end when \<^verbatim>\<open>position\<close> is negative).
\<close>

definition list_splice :: "int \<Rightarrow> 'a list \<Rightarrow> 'a list \<Rightarrow> 'a list" where
  "list_splice position ys xs =
     (if position \<ge> 0 then take (nat position) xs @ ys @ drop (nat position) xs else xs @ ys)"

text \<open>
  \<^verbatim>\<open>addSpotRef\<close> works on spot references: it leaves every child list as it is.
\<close>

definition keepsChildLists :: "addSpotRef \<Rightarrow> bool" where
  "keepsChildLists asr = (\<forall>node parentNode h r. childList (asr node parentNode h r) = childList (h r))"

text \<open>
  A value for examples: an \<^verbatim>\<open>addSpotRef\<close> that gives the node one spot under each spot of
  its parent node (one top-level spot when there is no parent node).
\<close>

definition addSpotsUnder :: addSpotRef where
  "addSpotsUnder node parentNode h =
     h(node := (h node)\<lparr>spotRefs := spotRefs (h node) @
         (case parentNode of
            None \<Rightarrow> [Spot node None]
          | Some p \<Rightarrow> map (\<lambda>ps. Spot node (Some ps)) (spotRefs (h p)))\<rparr>)"


text \<open>
  Modelled from the spec: \<^verbatim>\<open>descendantGen\<close> of the module \<^verbatim>\<open>treenode\<close>, which is not among
  the sources. The spec: the deleted node and every descendant reachable through its
  child-identity graph, depth-first. A node reached along two paths is yielded twice. The
  fuel bounds the depth: on a child graph with a cycle the generator of the source never
  ends, and the model gives \<open>None\<close> for every fuel.
\<close>

fun descendantGen :: "nat \<Rightarrow> heap \<Rightarrow> ref \<Rightarrow> ref list option" where
  "descendantGen 0 h node = None"
| "descendantGen (Suc fuel) h node =
     map_option (\<lambda>ls. node # concat ls) (those (map (descendantGen fuel h) (childList (h node))))"

text \<open>
  Modelled from the spec: \<^verbatim>\<open>removeInvalidSpotRefs(False)\<close> of the module \<^verbatim>\<open>treenode\<close>, which
  recomputes the remaining spots of one node. The spec: a spot is destroyed when its
  parent-child edge is removed. A spot stays when the node is still in the child list of
  the spot's parent node (of the structure, for a top-level spot) and the parent spot is
  still a spot of the parent node.
\<close>

definition spotValid :: "heap \<Rightarrow> treestructure \<Rightarrow> ref \<Rightarrow> spot \<Rightarrow> bool" where
  "spotValid h self node sp =
     (case parentSpot sp of
        None \<Rightarrow> node \<in> set (childList self)
      | Some ps \<Rightarrow> node \<in> set (childList (h (nodeRef ps))) \<and> ps \<in> set (spotRefs (h (nodeRef ps))))"

definition removeInvalidSpotRefs :: "heap \<Rightarrow> treestructure \<Rightarrow> ref \<Rightarrow> heap" where
  "removeInvalidSpotRefs h self node =
     h(node := (h node)\<lparr>spotRefs := filter (spotValid h self node) (spotRefs (h node))\<rparr>)"

text \<open>\<^verbatim>\<open>removeNodeDictRef\<close>: the \<^verbatim>\<open>KeyError\<close> of a missing key is caught.\<close>

definition removeNodeDictRef :: "heap \<Rightarrow> treestructure \<Rightarrow> ref \<Rightarrow> treestructure" where
  "removeNodeDictRef h self node = self\<lparr>nodeDict := AList.delete (uId (h node)) (nodeDict self)\<rparr>"

text \<open>The loop of \<^verbatim>\<open>deleteNodeSpot\<close> over the nodes \<^verbatim>\<open>descendantGen\<close> yields.\<close>

fun deleteLoop :: "ref list \<Rightarrow> heap \<times> treestructure \<Rightarrow> heap \<times> treestructure" where
  "deleteLoop [] st = st"
| "deleteLoop (node # rest) (h, self) =
     (if length (spotRefs (h node)) \<le> 1 then
        deleteLoop rest (h(node := (h node)\<lparr>spotRefs := []\<rparr>), removeNodeDictRef h self node)
      else deleteLoop rest (removeInvalidSpotRefs h self node, self))"

text \<open>
  \<^verbatim>\<open>deleteNodeSpot\<close>. \<^verbatim>\<open>childList.remove\<close> takes the first occurrence out and raises
  \<^verbatim>\<open>ValueError\<close> when there is none. The loop does not change any child list, so the nodes
  the generator yields are those of the heap right after the removal.
\<close>

definition deleteNodeSpot ::
  "nat \<Rightarrow> spot \<Rightarrow> heap \<times> treestructure \<Rightarrow> py_error + heap \<times> treestructure" where
  "deleteNodeSpot fuel sp st =
     (case st of (h, self) \<Rightarrow>
        (case (case parentSpot sp of
                 Some ps \<Rightarrow>
                   if nodeRef sp \<in> set (childList (h (nodeRef ps))) then
                     Inr (h(nodeRef ps := (h (nodeRef ps))
                            \<lparr>childList := remove1 (nodeRef sp) (childList (h (nodeRef ps)))\<rparr>), self)
                   else Inl ValueError
               | None \<Rightarrow>
                   if nodeRef sp \<in> set (childList self) then
                     Inr (h, self\<lparr>childList := remove1 (nodeRef sp) (childList self)\<rparr>)
                   else Inl ValueError) of
           Inl e \<Rightarrow> Inl e
         | Inr (h1, self1) \<Rightarrow>
             (case descendantGen fuel h1 (nodeRef sp) of
                None \<Rightarrow> Inl RecursionError
              | Some nodes \<Rightarrow> Inr (deleteLoop nodes (h1, self1)))))"

text \<open>
  A value for examples: the top-level nodes \<^verbatim>\<open>d\<close> (2) and \<^verbatim>\<open>q\<close> (1); \<^verbatim>\<open>d\<close> has the children
  \<^verbatim>\<open>b\<close> (3) and \<^verbatim>\<open>m\<close> (4); \<^verbatim>\<open>m\<close> is also a child of \<^verbatim>\<open>b\<close> and of \<^verbatim>\<open>q\<close>: one node with three
  spots.
\<close>

definition cloneHeap :: heap where
  "cloneHeap =
     (\<lambda>r. plainNode ''x'' [] [])
       (1 := plainNode ''q'' [4] [Spot 1 None],
        2 := plainNode ''d'' [3, 4] [Spot 2 None],
        3 := plainNode ''b'' [4] [Spot 3 (Some (Spot 2 None))],
        4 := plainNode ''m'' []
               [Spot 4 (Some (Spot 3 (Some (Spot 2 None)))), Spot 4 (Some (Spot 2 None)),
                Spot 4 (Some (Spot 1 None))])"

definition cloneStruct :: treestructure where
  "cloneStruct = structOf [2, 1] [(''d'', 2), (''b'', 3), (''m'', 4), (''q'', 1)]"

section \<open>Field references are parsed without error\<close>

text \<open>
  The modifiers the pattern accepts: a run of asterisks (possibly empty) or one of
  \<^verbatim>\<open>? ! & #\<close>.
\<close>

definition isModifier :: "string \<Rightarrow> bool" where
  "isModifier m = (set m \<subseteq> {CHR ''*''} \<or> m \<in> {''?'', ''!'', ''&'', ''#''})"

lemma not_namechar_special:
  "\<not> isnamechar CHR ''*''" "\<not> isnamechar CHR ''?''" "\<not> isnamechar CHR ''!''"
  "\<not> isnamechar CHR ''&''" "\<not> isnamechar CHR ''#''" "\<not> isnamechar CHR ''{''"
  "\<not> isnamechar CHR ''}''" "\<not> isnamechar CHR '' ''"
  by (simp_all add: isnamechar_def isword_def)

lemma namechar_neq:
  "isnamechar c \<Longrightarrow>
     c \<noteq> CHR ''*'' \<and> c \<noteq> CHR ''?'' \<and> c \<noteq> CHR ''!'' \<and> c \<noteq> CHR ''&'' \<and> c \<noteq> CHR ''#''"
  using not_namechar_special by auto

lemma takeWhile_stars:
  assumes "set m \<subseteq> {CHR ''*''}" "r = [] \<or> hd r \<noteq> CHR ''*''"
  shows "takeWhile (\<lambda>x. x = CHR ''*'') (m @ r) = m \<and> dropWhile (\<lambda>x. x = CHR ''*'') (m @ r) = r"
  using assms by (induction m) (cases r; auto)+

lemma modifierMatch_complete:
  assumes "isModifier m" "isnamechar c"
  shows "modifierMatch (m @ c # r) = (m, c # r)"
proof (cases "m \<in> {''?'', ''!'', ''&'', ''#''}")
  case True
  then show ?thesis by (auto simp: modifierMatch_def)
next
  case False
  with assms have st: "set m \<subseteq> {CHR ''*''}" by (simp add: isModifier_def)
  have c: "c \<noteq> CHR ''*''" using namechar_neq [OF assms(2)] by simp
  show ?thesis
  proof (cases m)
    case Nil
    then show ?thesis using namechar_neq [OF assms(2)] by (simp add: modifierMatch_def)
  next
    case (Cons a m')
    with st have a: "a = CHR ''*''" by simp
    have "takeWhile (\<lambda>x. x = CHR ''*'') (m @ c # r) = m \<and>
          dropWhile (\<lambda>x. x = CHR ''*'') (m @ c # r) = c # r"
      by (rule takeWhile_stars [OF st]) (simp add: c)
    then show ?thesis using Cons a by (simp add: modifierMatch_def)
  qed
qed

lemma fieldMatch_complete:
  assumes "isModifier m" "n \<noteq> []" "\<forall>c\<in>set n. isnamechar c"
  shows "fieldMatch (fieldRef m n @ rest) = Some (m, n, rest)"
proof -
  from assms(2) obtain c n' where n: "n = c # n'" by (cases n) auto
  with assms(3) have c: "isnamechar c" by simp
  have mm: "modifierMatch (m @ c # (n' @ ''*}'' @ rest)) = (m, c # (n' @ ''*}'' @ rest))"
    by (rule modifierMatch_complete [OF assms(1) c])
  have tw: "takeWhile isnamechar (n @ ''*}'' @ rest) = n"
    using assms(3) not_namechar_special(1) by simp
  have dw: "dropWhile isnamechar (n @ ''*}'' @ rest) = ''*}'' @ rest"
    using assms(3) not_namechar_special(1) by simp
  show ?thesis
    using mm tw dw assms(2) unfolding n fieldMatch_def fieldRef_def
    by simp
qed

text \<open>
  C3. For a segment \<^verbatim>\<open>{*<modifier><fieldname>*}\<close> (the modifier one the pattern
  accepts, the name a non-empty run of name characters), \<^verbatim>\<open>parseField\<close> returns the field
  object exactly when the modifier is empty and the name is a key of the field table; in
  every other case it returns the segment itself, unchanged, as literal text. The function
  is total: the one exception the source can meet, the \<^verbatim>\<open>KeyError\<close> of the lookup, is
  caught.
\<close>

theorem parseField_reference:
  assumes "isModifier m" "n \<noteq> []" "\<forall>c\<in>set n. isnamechar c"
  shows "parseField fd (fieldRef m n) =
     (if m = [] \<and> map_of fd n \<noteq> None then FieldPart (the (map_of fd n))
      else TextPart (fieldRef m n))"
  using fieldMatch_complete [OF assms, of "[]"]
  by (auto simp: parseField_def split: option.splits)

theorem parseField_reference_witness:
  "parseField [(''A'', \<lparr>name = ''A'', fieldtype = ''Text''\<rparr>)] (fieldRef [] ''A'')
     = FieldPart \<lparr>name = ''A'', fieldtype = ''Text''\<rparr> \<and>
   parseField [(''A'', \<lparr>name = ''A'', fieldtype = ''Text''\<rparr>)] (fieldRef ''?'' ''A'')
     = TextPart ''{*?A*}'' \<and>
   parseField [(''A'', \<lparr>name = ''A'', fieldtype = ''Text''\<rparr>)] (fieldRef ''**'' ''A'')
     = TextPart ''{***A*}'' \<and>
   parseField [(''A'', \<lparr>name = ''A'', fieldtype = ''Text''\<rparr>)] (fieldRef [] ''B.c'')
     = TextPart ''{*B.c*}''"
proof -
  have n: "\<forall>c\<in>set ''A''. isnamechar c" "\<forall>c\<in>set ''B.c''. isnamechar c"
    by (simp_all add: isnamechar_def isword_def)
  have m: "isModifier []" "isModifier ''?''" "isModifier ''**''"
    by (simp_all add: isModifier_def)
  show ?thesis
    using parseField_reference [OF m(1) _ n(1), of "[(''A'', \<lparr>name = ''A'', fieldtype = ''Text''\<rparr>)]"]
      parseField_reference [OF m(2) _ n(1), of "[(''A'', \<lparr>name = ''A'', fieldtype = ''Text''\<rparr>)]"]
      parseField_reference [OF m(3) _ n(1), of "[(''A'', \<lparr>name = ''A'', fieldtype = ''Text''\<rparr>)]"]
      parseField_reference [OF m(1) _ n(2), of "[(''A'', \<lparr>name = ''A'', fieldtype = ''Text''\<rparr>)]"]
    by (simp add: fieldRef_def)
qed

section \<open>Parsing a serialized template gives the same template\<close>

lemma split_ws_append:
  "\<forall>c\<in>set w. \<not> isspace c \<Longrightarrow> split_ws a (w @ r) = split_ws (a @ w) r"
  by (induction w arbitrary: a) auto

lemma split_ws_words:
  "\<forall>c\<in>set a. \<not> isspace c \<Longrightarrow> x \<in> set (split_ws a s) \<Longrightarrow> x \<noteq> [] \<and> (\<forall>c\<in>set x. \<not> isspace c)"
proof (induction a s rule: split_ws.induct)
  case (1 w)
  then show ?case by (simp split: if_splits)
next
  case (2 w c cs)
  show ?case
  proof (cases "isspace c")
    case True
    show ?thesis
    proof (cases "w = []")
      case w: True
      from "2.prems"(2) True w have "x \<in> set (split_ws [] cs)" by simp
      with "2.IH"(1) [OF True w] show ?thesis by simp
    next
      case w: False
      from "2.prems"(2) True w have "x = w \<or> x \<in> set (split_ws [] cs)" by simp
      then show ?thesis
      proof
        assume "x = w"
        with w "2.prems"(1) show ?thesis by simp
      next
        assume "x \<in> set (split_ws [] cs)"
        with "2.IH"(2) [OF True w] show ?thesis by simp
      qed
    qed
  next
    case False
    from "2.prems"(2) False have "x \<in> set (split_ws (w @ [c]) cs)" by simp
    moreover have "\<forall>d\<in>set (w @ [c]). \<not> isspace d" using "2.prems"(1) False by simp
    ultimately show ?thesis using "2.IH"(3) [OF False] by blast
  qed
qed

lemma isspace_space: "isspace CHR '' ''"
  by (simp add: isspace_def)

lemma split_ws_join:
  "\<forall>w\<in>set ws. w \<noteq> [] \<and> (\<forall>c\<in>set w. \<not> isspace c) \<Longrightarrow> split_ws [] (py_join '' '' ws) = ws"
proof (induction ws rule: induct_list012)
  case 1
  then show ?case by simp
next
  case (2 x)
  then show ?case using split_ws_append [of x "[]" "[]"] by simp
next
  case (3 x y ys)
  have "split_ws [] (x @ '' '' @ py_join '' '' (y # ys)) = split_ws x ('' '' @ py_join '' '' (y # ys))"
    using 3(3) split_ws_append [of x "[]"] by simp
  also have "\<dots> = x # split_ws [] (py_join '' '' (y # ys))"
    using 3(3) by (simp add: isspace_space)
  finally show ?case using 3 by simp
qed

lemma normalize_ws_idem: "normalize_ws (normalize_ws s) = normalize_ws s"
proof -
  have "\<forall>w\<in>set (py_split s). w \<noteq> [] \<and> (\<forall>c\<in>set w. \<not> isspace c)"
  proof
    fix w assume "w \<in> set (py_split s)"
    then show "w \<noteq> [] \<and> (\<forall>c\<in>set w. \<not> isspace c)"
      using split_ws_words [of "[]" w s] by (simp add: py_split_def)
  qed
  then have "py_split (py_join '' '' (py_split s)) = py_split s"
    unfolding py_split_def by (rule split_ws_join)
  then show ?thesis by (simp add: normalize_ws_def)
qed

lemma concat_fieldSplit: "concat (fieldSplit acc s) = acc @ s"
proof (induction acc s rule: fieldSplit.induct)
  case (1 acc)
  then show ?case by simp
next
  case (2 acc c cs)
  show ?case
  proof (cases "fieldMatch (c # cs)")
    case None
    with "2.IH"(1) show ?thesis by simp
  next
    case (Some a)
    then obtain m n rest where a: "a = (m, n, rest)" by (cases a) auto
    have ih: "concat (fieldSplit [] rest) = rest"
      using "2.IH"(2) [OF Some, of m "(n, rest)" n rest] a by simp
    have "fieldSplit acc (c # cs) = acc # fieldRef m n # fieldSplit [] rest"
      using Some a by simp
    then have "concat (fieldSplit acc (c # cs)) = acc @ fieldRef m n @ rest"
      using ih by simp
    also have "fieldRef m n @ rest = c # cs"
      using fieldMatch_text [of "c # cs" m n rest] Some a by simp
    finally show ?thesis .
  qed
qed

lemma modifierMatch_isModifier: "modifierMatch r = (m, r1) \<Longrightarrow> isModifier m"
proof (cases r)
  case Nil
  assume "modifierMatch r = (m, r1)"
  with Nil show ?thesis by (simp add: modifierMatch_def isModifier_def)
next
  case (Cons c r')
  assume mm: "modifierMatch r = (m, r1)"
  show ?thesis
  proof (cases "c = CHR ''*''")
    case True
    with mm Cons have "m = takeWhile (\<lambda>x. x = CHR ''*'') r" by (simp add: modifierMatch_def)
    then have "set m \<subseteq> {CHR ''*''}" by (auto dest: set_takeWhileD)
    then show ?thesis by (simp add: isModifier_def)
  next
    case False
    with mm Cons show ?thesis
      by (cases "c \<in> {CHR ''?'', CHR ''!'', CHR ''&'', CHR ''#''}")
         (auto simp: modifierMatch_def isModifier_def)
  qed
qed

lemma fieldMatch_props:
  assumes "fieldMatch s = Some (m, n, rest)"
  shows "isModifier m \<and> n \<noteq> [] \<and> (\<forall>c\<in>set n. isnamechar c)"
proof -
  from assms obtain r where s: "s = CHR ''{'' # CHR ''*'' # r"
    by (auto simp: fieldMatch_def split: list.splits if_splits)
  obtain m' r1 where mm: "modifierMatch r = (m', r1)" by (cases "modifierMatch r")
  from assms s mm have m: "m' = m" and n: "n = takeWhile isnamechar r1" and ne: "n \<noteq> []"
    by (auto simp: fieldMatch_def Let_def split: list.splits if_splits)
  have "\<forall>c\<in>set n. isnamechar c" using n by (auto dest: set_takeWhileD)
  with modifierMatch_isModifier [OF mm] m ne show ?thesis by simp
qed

lemma fieldMatch_extend:
  assumes "fieldMatch s = Some (m, n, rest)"
  shows "fieldMatch (s @ x) = Some (m, n, rest @ x)"
proof -
  have p: "isModifier m" "n \<noteq> []" "\<forall>c\<in>set n. isnamechar c"
    using fieldMatch_props [OF assms] by auto
  have "s @ x = fieldRef m n @ (rest @ x)" using fieldMatch_text [OF assms] by simp
  then show ?thesis using fieldMatch_complete [OF p, of "rest @ x"] by simp
qed

lemma fieldMatch_Nil: "fieldMatch [] = None"
  by (simp add: fieldMatch_def)

lemma fieldSplit_segments:
  "acc = [] \<or> fieldMatch (acc @ s) = None \<Longrightarrow> seg \<in> set (fieldSplit acc s) \<Longrightarrow> segment_ok seg"
proof (induction acc s rule: fieldSplit.induct)
  case (1 acc)
  then show ?case by (auto simp: segment_ok_def fieldMatch_Nil)
next
  case (2 acc c cs)
  have acc_ok: "segment_ok acc"
  proof (cases "fieldMatch acc")
    case None
    then show ?thesis by (simp add: segment_ok_def)
  next
    case (Some a)
    then obtain m n rest where "fieldMatch acc = Some (m, n, rest)" by (cases a) auto
    from fieldMatch_extend [OF this, of "c # cs"] "2.prems"(1) have "acc = []" by auto
    with Some show ?thesis by (simp add: fieldMatch_Nil)
  qed
  show ?case
  proof (cases "fieldMatch (c # cs)")
    case None
    have pre: "acc @ [c] = [] \<or> fieldMatch ((acc @ [c]) @ cs) = None"
      using "2.prems"(1) None by auto
    from "2.prems"(2) None have "seg \<in> set (fieldSplit (acc @ [c]) cs)" by simp
    with "2.IH"(1) [OF None pre] show ?thesis .
  next
    case (Some a)
    then obtain m n rest where a: "a = (m, n, rest)" by (cases a) auto
    have p: "isModifier m" "n \<noteq> []" "\<forall>c\<in>set n. isnamechar c"
      using fieldMatch_props [of "c # cs" m n rest] Some a by auto
    have ref_ok: "segment_ok (fieldRef m n)"
      using fieldMatch_complete [OF p, of "[]"] by (simp add: segment_ok_def)
    from "2.prems"(2) Some a
    have "seg = acc \<or> seg = fieldRef m n \<or> seg \<in> set (fieldSplit [] rest)"
      by auto
    moreover have "seg \<in> set (fieldSplit [] rest) \<Longrightarrow> segment_ok seg"
      using "2.IH"(2) [OF Some, of m "(n, rest)" n rest] a by simp
    ultimately show ?thesis using acc_ok ref_ok by blast
  qed
qed

lemma concat_filter_nonempty: "concat (filter (\<lambda>p. p \<noteq> []) xs) = concat xs"
  by (induction xs) auto

lemma map_of_name: "fieldDict_ok fd \<Longrightarrow> map_of fd n = Some f \<Longrightarrow> name f = n"
  by (auto simp: fieldDict_ok_def dest: map_of_SomeD)

lemma partText_parseField:
  assumes "fieldDict_ok fd" "segment_ok seg"
  shows "partText (parseField fd seg) = seg"
proof (cases "fieldMatch seg")
  case None
  then show ?thesis by (simp add: parseField_def partText_def)
next
  case (Some a)
  then obtain m n rest where a: "fieldMatch seg = Some (m, n, rest)" by (cases a) auto
  with assms(2) have rest: "rest = []" by (simp add: segment_ok_def)
  have seg: "seg = fieldRef m n" using fieldMatch_text [OF a] rest by simp
  show ?thesis
  proof (cases "m = [] \<and> map_of fd n \<noteq> None")
    case True
    then obtain f where f: "map_of fd n = Some f" by auto
    with True a have "parseField fd seg = FieldPart f" by (simp add: parseField_def)
    moreover have "name f = n" by (rule map_of_name [OF assms(1) f])
    ultimately show ?thesis using seg True by (simp add: partText_def sepName_def fieldRef_def)
  next
    case False
    with a have "parseField fd seg = TextPart seg"
      by (auto simp: parseField_def split: option.splits)
    then show ?thesis by (simp add: partText_def)
  qed
qed

lemma lineText_parseLine:
  assumes "fieldDict_ok fd"
  shows "lineText (parseLine fd s) = normalize_ws s"
proof -
  let ?segs = "filter (\<lambda>p. p \<noteq> []) (fieldSplit [] (normalize_ws s))"
  have ok: "\<forall>seg\<in>set ?segs. segment_ok seg"
    using fieldSplit_segments [of "[]" "normalize_ws s"] by simp
  have "map (\<lambda>seg. partText (parseField fd seg)) ?segs = map (\<lambda>seg. seg) ?segs"
    by (rule map_cong [OF refl]) (use ok partText_parseField [OF assms] in blast)
  then have "lineText (parseLine fd s) = concat ?segs"
    by (simp add: lineText_def parseLine_def comp_def)
  also have "\<dots> = concat (fieldSplit [] (normalize_ws s))"
    by (rule concat_filter_nonempty)
  also have "\<dots> = normalize_ws s" by (simp add: concat_fieldSplit)
  finally show ?thesis .
qed

text \<open>
  C6. For every raw template text, parsing it, writing the parts back as text (what
  \<^verbatim>\<open>getTitleLine\<close> and \<^verbatim>\<open>getOutputLines\<close> do for each line) and parsing that text
  gives the parts of the first parse. Parsing starts by collapsing each run of white space
  to one space and dropping it at both ends, and the text written back is exactly that
  normalised text. The field table holds each field under its own name.
\<close>

theorem parseLine_roundtrip:
  assumes "fieldDict_ok fd"
  shows "parseLine fd (lineText (parseLine fd s)) = parseLine fd s \<and>
         lineText (parseLine fd s) = normalize_ws s \<and>
         parseLine fd (normalize_ws s) = parseLine fd s"
  using lineText_parseLine [OF assms, of s] normalize_ws_idem [of s]
  by (simp add: parseLine_def)

theorem parseLine_roundtrip_witness:
  "parseLine [(''A'', \<lparr>name = ''A'', fieldtype = ''Text''\<rparr>)]
     (lineText (parseLine [(''A'', \<lparr>name = ''A'', fieldtype = ''Text''\<rparr>)] '' {*A*}:   {*B*} ''))
   = parseLine [(''A'', \<lparr>name = ''A'', fieldtype = ''Text''\<rparr>)] '' {*A*}:   {*B*} '' \<and>
   lineText (parseLine [(''A'', \<lparr>name = ''A'', fieldtype = ''Text''\<rparr>)] '' {*A*}:   {*B*} '')
   = ''{*A*}: {*B*}''"
proof -
  have ok: "fieldDict_ok [(''A'', \<lparr>name = ''A'', fieldtype = ''Text''\<rparr>)]"
    by (simp add: fieldDict_ok_def)
  have "normalize_ws '' {*A*}:   {*B*} '' = ''{*A*}: {*B*}''"
    by (simp add: normalize_ws_def py_split_def isspace_def)
  with parseLine_roundtrip [OF ok, of "'' {*A*}:   {*B*} ''"] show ?thesis by simp
qed

section \<open>Lines whose fields are all empty are dropped\<close>

lemma foldl_partStep:
  "foldl (partStep ot rm fh node pt) (line, ne, nf) ld =
     (line @ fst (foldl (partStep ot rm fh node pt) ([], 0, 0) ld),
      ne + length (filter (\<lambda>t. t = []) (fieldTexts ot fh node pt ld)),
      nf + length (filter (\<lambda>t. t \<noteq> []) (fieldTexts ot fh node pt ld)))"
proof (induction ld arbitrary: line ne nf)
  case Nil
  then show ?case by (simp add: fieldTexts_def)
next
  case (Cons p ld)
  obtain l1 e1 f1 where st: "partStep ot rm fh node pt ([], 0, 0) p = (l1, e1, f1)"
    by (cases "partStep ot rm fh node pt ([], 0, 0) p") auto
  have st2: "partStep ot rm fh node pt (line, ne, nf) p = (line @ l1, ne + e1, nf + f1)"
    using st by (auto simp: partStep_def Let_def split: part.splits if_splits)
  have cnt: "e1 = length (filter (\<lambda>t. t = []) (fieldTexts ot fh node pt [p]))"
            "f1 = length (filter (\<lambda>t. t \<noteq> []) (fieldTexts ot fh node pt [p]))"
    using st by (auto simp: partStep_def fieldTexts_def Let_def split: part.splits if_splits)
  have ft: "fieldTexts ot fh node pt (p # ld) = fieldTexts ot fh node pt [p] @ fieldTexts ot fh node pt ld"
    by (simp add: fieldTexts_def)
  show ?case
    using Cons [of "line @ l1" "ne + e1" "nf + f1"] Cons [of l1 e1 f1] st st2 cnt ft
    by simp
qed

lemma renderLine_counts:
  "renderLine ot rm fh node pt ld =
     (fst (renderLine ot rm fh node pt ld),
      length (filter (\<lambda>t. t = []) (fieldTexts ot fh node pt ld)),
      length (filter (\<lambda>t. t \<noteq> []) (fieldTexts ot fh node pt ld)))"
  using foldl_partStep [of ot rm fh node pt "[]" 0 0 ld] by (simp add: renderLine_def)

lemma kept_iff:
  "(kb \<or> length (filter (\<lambda>t. t \<noteq> []) ts) \<noteq> 0 \<or> length (filter (\<lambda>t. t = []) ts) = 0)
     = (kb \<or> (\<exists>t\<in>set ts. t \<noteq> []) \<or> ts = [])"
proof -
  have a: "(length (filter (\<lambda>t. t \<noteq> []) ts) \<noteq> 0) = (\<exists>t\<in>set ts. t \<noteq> [])"
    by (simp add: filter_empty_conv)
  have b: "(length (filter (\<lambda>t. t = []) ts) = 0) = (\<forall>t\<in>set ts. t \<noteq> [])"
    by (simp add: filter_empty_conv)
  show ?thesis unfolding a b by (cases ts) auto
qed

lemma lineStep_kept:
  assumes "lineKept ot fh node pt kb ld"
  shows "lineStep ot rm fh node pt kb result ld = result @ [fst (renderLine ot rm fh node pt ld)]"
proof -
  have "kb \<or> length (filter (\<lambda>t. t \<noteq> []) (fieldTexts ot fh node pt ld)) \<noteq> 0
          \<or> length (filter (\<lambda>t. t = []) (fieldTexts ot fh node pt ld)) = 0"
    using assms unfolding kept_iff lineKept_def .
  then show ?thesis
    unfolding lineStep_def by (subst renderLine_counts) (simp only: prod.case if_True)
qed

lemma lineStep_dropped:
  assumes "\<not> lineKept ot fh node pt kb ld"
  shows "lineStep ot rm fh node pt kb result ld =
     (if fh \<and> \<not> pt \<and> result \<noteq> [] then
        (case endTagRe_match (fst (renderLine ot rm fh node pt ld)) of
           Some tag \<Rightarrow> butlast result @ [last result @ tag]
         | None \<Rightarrow> result)
      else result)"
proof -
  have "\<not> (kb \<or> length (filter (\<lambda>t. t \<noteq> []) (fieldTexts ot fh node pt ld)) \<noteq> 0
          \<or> length (filter (\<lambda>t. t = []) (fieldTexts ot fh node pt ld)) = 0)"
    using assms unfolding kept_iff lineKept_def .
  then show ?thesis
    unfolding lineStep_def by (subst renderLine_counts) (simp only: prod.case if_False)
qed

lemma foldl_lineStep_rel:
  assumes "list_all2 (\<lambda>r l. \<exists>tags. r = fst (renderLine ot rm fh node pt l) @ tags) result ks"
  shows "list_all2 (\<lambda>r l. \<exists>tags. r = fst (renderLine ot rm fh node pt l) @ tags)
           (foldl (lineStep ot rm fh node pt kb) result lines)
           (ks @ filter (lineKept ot fh node pt kb) lines)"
  using assms
proof (induction lines arbitrary: result ks)
  case Nil
  then show ?case by simp
next
  case (Cons l lines)
  let ?R = "\<lambda>r l. \<exists>tags. r = fst (renderLine ot rm fh node pt l) @ tags"
  show ?case
  proof (cases "lineKept ot fh node pt kb l")
    case True
    have "list_all2 ?R (result @ [fst (renderLine ot rm fh node pt l)]) (ks @ [l])"
      using Cons.prems by (simp add: list_all2_appendI)
    from Cons.IH [OF this] True show ?thesis
      by (simp add: lineStep_kept)
  next
    case False
    have "list_all2 ?R (lineStep ot rm fh node pt kb result l) ks"
    proof (cases "fh \<and> \<not> pt \<and> result \<noteq> []")
      case c: False
      then show ?thesis using Cons.prems lineStep_dropped [OF False, of rm result] by auto
    next
      case c: True
      show ?thesis
      proof (cases "endTagRe_match (fst (renderLine ot rm fh node pt l))")
        case None
        then show ?thesis using Cons.prems lineStep_dropped [OF False, of rm result] c by simp
      next
        case (Some tag)
        have st: "lineStep ot rm fh node pt kb result l = butlast result @ [last result @ tag]"
          using lineStep_dropped [OF False, of rm result] c Some by simp
        from c have r: "result = butlast result @ [last result]" by simp
        have len: "length result = length ks" using Cons.prems by (rule list_all2_lengthD)
        with c have "ks \<noteq> []" by auto
        then have k: "ks = butlast ks @ [last ks]" by simp
        have all: "list_all2 ?R (butlast result @ [last result]) (butlast ks @ [last ks])"
          using Cons.prems r k by simp
        have lb: "length (butlast result) = length (butlast ks)" using len by simp
        from all lb have b: "list_all2 ?R (butlast result) (butlast ks)"
          and e: "?R (last result) (last ks)"
          by (auto simp: list_all2_append)
        from e obtain tags where "last result = fst (renderLine ot rm fh node pt (last ks)) @ tags"
          by blast
        then have "?R (last result @ tag) (last ks)" by simp
        with b have "list_all2 ?R (butlast result @ [last result @ tag]) (butlast ks @ [last ks])"
          by (simp add: list_all2_appendI)
        with st k show ?thesis by simp
      qed
    qed
    from Cons.IH [OF this] False show ?thesis by simp
  qed
qed

lemma foldl_lineStep_exact:
  assumes "\<not> fh \<or> pt"
  shows "foldl (lineStep ot rm fh node pt kb) result lines =
           result @ map (\<lambda>l. fst (renderLine ot rm fh node pt l)) (filter (lineKept ot fh node pt kb) lines)"
proof (induction lines arbitrary: result)
  case Nil
  then show ?case by simp
next
  case (Cons l lines)
  show ?case
  proof (cases "lineKept ot fh node pt kb l")
    case True
    then show ?thesis using Cons [of "result @ [fst (renderLine ot rm fh node pt l)]"]
      by (simp add: lineStep_kept)
  next
    case False
    have "lineStep ot rm fh node pt kb result l = result"
      using lineStep_dropped [OF False, of rm result] assms by auto
    then show ?thesis using Cons [of result] False by simp
  qed
qed

lemma parseLine_AB:
  "parseLine [(''A'', fa), (''B'', fb)] ''{*A*}, {*B*}'' = [FieldPart fa, TextPart '', '', FieldPart fb]"
  by (simp add: parseLine_def normalize_ws_def py_split_def isspace_def fieldMatch_def
      modifierMatch_def isnamechar_def isword_def parseField_def fieldRef_def)

text \<open>
  C2. \<^verbatim>\<open>formatOutput\<close> keeps a rendered line exactly when \<^verbatim>\<open>keepBlanks\<close> is true, or a
  field token of the line rendered non-empty, or the line has no field token: the lines of
  the result are, in order, the kept lines of the format, each starting with its rendered
  text (only the end tag of a dropped line can follow it, in HTML mode), and the result is
  exactly the rendered kept lines when the format is not HTML or plain text is asked for,
  or when the format has one line. For the output line \<^verbatim>\<open>{*A*}, {*B*}\<close>, with
  \<^verbatim>\<open>plainText\<close> and \<^verbatim>\<open>keepBlanks\<close> false: the line is dropped when \<^verbatim>\<open>A\<close> and \<^verbatim>\<open>B\<close>
  render empty, and the result is \<^verbatim>\<open>x, \<close> when \<^verbatim>\<open>A\<close> renders \<^verbatim>\<open>x\<close> and \<^verbatim>\<open>B\<close> renders
  empty.
\<close>

theorem formatOutput_keeps_lines:
  "list_all2 (\<lambda>r l. \<exists>tags. r = fst (renderLine ot rm (formatHtml fmt) node pt l) @ tags)
     (formatOutput ot rm fmt node pt kb)
     (filter (lineKept ot (formatHtml fmt) node pt kb) (outputLines fmt)) \<and>
   (\<not> formatHtml fmt \<or> pt \<longrightarrow>
      formatOutput ot rm fmt node pt kb =
        map (\<lambda>l. fst (renderLine ot rm (formatHtml fmt) node pt l))
          (filter (lineKept ot (formatHtml fmt) node pt kb) (outputLines fmt))) \<and>
   (outputLines fmt = [l] \<longrightarrow>
      formatOutput ot rm fmt node pt kb =
        (if lineKept ot (formatHtml fmt) node pt kb l
         then [fst (renderLine ot rm (formatHtml fmt) node pt l)] else [])) \<and>
   (outputLines fmt = [parseLine [(''A'', fa), (''B'', fb)] ''{*A*}, {*B*}''] \<and>
    ot fa node False (formatHtml fmt) = [] \<and> ot fb node False (formatHtml fmt) = [] \<longrightarrow>
      formatOutput ot rm fmt node False False = []) \<and>
   (outputLines fmt = [parseLine [(''A'', fa), (''B'', fb)] ''{*A*}, {*B*}''] \<and>
    ot fa node False (formatHtml fmt) = ''x'' \<and> ot fb node False (formatHtml fmt) = [] \<longrightarrow>
      formatOutput ot rm fmt node False False = [''x, ''])"
proof (intro conjI impI)
  show "list_all2 (\<lambda>r l. \<exists>tags. r = fst (renderLine ot rm (formatHtml fmt) node pt l) @ tags)
     (formatOutput ot rm fmt node pt kb)
     (filter (lineKept ot (formatHtml fmt) node pt kb) (outputLines fmt))"
    using foldl_lineStep_rel [of ot rm "formatHtml fmt" node pt "[]" "[]" kb "outputLines fmt"]
    by (simp add: formatOutput_def)
next
  assume "\<not> formatHtml fmt \<or> pt"
  from foldl_lineStep_exact [OF this, of ot rm node kb "[]" "outputLines fmt"]
  show "formatOutput ot rm fmt node pt kb =
        map (\<lambda>l. fst (renderLine ot rm (formatHtml fmt) node pt l))
          (filter (lineKept ot (formatHtml fmt) node pt kb) (outputLines fmt))"
    by (simp add: formatOutput_def)
next
  assume "outputLines fmt = [l]"
  then show "formatOutput ot rm fmt node pt kb =
        (if lineKept ot (formatHtml fmt) node pt kb l
         then [fst (renderLine ot rm (formatHtml fmt) node pt l)] else [])"
    using lineStep_kept [of ot "formatHtml fmt" node pt kb l rm "[]"]
      lineStep_dropped [of ot "formatHtml fmt" node pt kb l rm "[]"]
    by (simp add: formatOutput_def)
next
  assume "outputLines fmt = [parseLine [(''A'', fa), (''B'', fb)] ''{*A*}, {*B*}''] \<and>
    ot fa node False (formatHtml fmt) = [] \<and> ot fb node False (formatHtml fmt) = []"
  then show "formatOutput ot rm fmt node False False = []"
    by (simp add: parseLine_AB formatOutput_def lineStep_def renderLine_def partStep_def)
next
  assume "outputLines fmt = [parseLine [(''A'', fa), (''B'', fb)] ''{*A*}, {*B*}''] \<and>
    ot fa node False (formatHtml fmt) = ''x'' \<and> ot fb node False (formatHtml fmt) = []"
  then show "formatOutput ot rm fmt node False False = [''x, '']"
    by (simp add: parseLine_AB formatOutput_def lineStep_def renderLine_def partStep_def
        xml_escape_def replaceChar_def)
qed

theorem formatOutput_keeps_lines_witness:
  "formatOutput storedText id
     ((emptyFormat ''T'')\<lparr>outputLines :=
        [parseLine [(''A'', textField ''A''), (''B'', textField ''B'')] ''{*A*}, {*B*}'']\<rparr>)
     [''A'' \<mapsto> [], ''B'' \<mapsto> []] False False = [] \<and>
   formatOutput storedText id
     ((emptyFormat ''T'')\<lparr>outputLines :=
        [parseLine [(''A'', textField ''A''), (''B'', textField ''B'')] ''{*A*}, {*B*}'']\<rparr>)
     [''A'' \<mapsto> ''x'', ''B'' \<mapsto> []] False False = [''x, '']"
proof -
  let ?fmt = "(emptyFormat ''T'')\<lparr>outputLines :=
        [parseLine [(''A'', textField ''A''), (''B'', textField ''B'')] ''{*A*}, {*B*}'']\<rparr>"
  note inst = formatOutput_keeps_lines [where ot = storedText and rm = id and fmt = ?fmt
      and pt = False and kb = False and l = "[]" and fa = "textField ''A''" and fb = "textField ''B''"]
  have a: "formatOutput storedText id ?fmt [''A'' \<mapsto> [], ''B'' \<mapsto> []] False False = []"
    by (rule inst [THEN conjunct2, THEN conjunct2, THEN conjunct2, THEN conjunct1, THEN mp])
       (simp add: storedText_def textField_def)
  have b: "formatOutput storedText id ?fmt [''A'' \<mapsto> ''x'', ''B'' \<mapsto> []] False False = [''x, '']"
    by (rule inst [THEN conjunct2, THEN conjunct2, THEN conjunct2, THEN conjunct2, THEN mp])
       (simp add: storedText_def textField_def)
  from a b show ?thesis by (rule conjI)
qed

section \<open>The end tag of a dropped line\<close>









section \<open>Titles read back into the data\<close>

lemma parseLine_First_Last:
  "parseLine [(''First'', fF), (''Last'', fL)] ''{*First*} {*Last*}'' =
     [FieldPart fF, TextPart '' '', FieldPart fL]"
  by (simp add: parseLine_def normalize_ws_def py_split_def isspace_def fieldMatch_def
      modifierMatch_def isnamechar_def isword_def parseField_def fieldRef_def)

text \<open>
  C4, as stated, fails in its second half: the only separator of the title line
  \<^verbatim>\<open>{*First*} {*Last*}\<close> is a space, so for \<^verbatim>\<open>AnnLee\<close>, which the pattern does not match,
  the source takes the branch for separators of spaces only, gives the whole title to the
  first field and returns \<^verbatim>\<open>True\<close>.
\<close>

theorem extractTitleData_whitespace_fallback:
  "extractTitleData textOrNumberFromTitle
     ((emptyFormat ''Person'')\<lparr>
        fieldDict := [(''First'', textField ''First''), (''Last'', textField ''Last'')],
        titleLine := parseLine [(''First'', textField ''First''), (''Last'', textField ''Last'')]
                       ''{*First*} {*Last*}''\<rparr>)
     ''AnnLee'' Map.empty
   = (Inr True, [''First'' \<mapsto> ''AnnLee'', ''Last'' \<mapsto> []])"
  by (simp add: parseLine_First_Last extractTitleData_def emptyFormat_def py_strip_def isspace_def
      textOrNumberFromTitle_def textField_def)

text \<open>
  C4, amended. For the title line \<^verbatim>\<open>{*First*} {*Last*}\<close> (both fields in the field table),
  \<^verbatim>\<open>extractTitleData("Ann Lee")\<close> succeeds and sets \<^verbatim>\<open>First\<close> to \<^verbatim>\<open>Ann\<close> and \<^verbatim>\<open>Last\<close> to
  \<^verbatim>\<open>Lee\<close>; \<^verbatim>\<open>extractTitleData("AnnLee")\<close> succeeds too, setting \<^verbatim>\<open>First\<close> to \<^verbatim>\<open>AnnLee\<close>
  and \<^verbatim>\<open>Last\<close> to the empty string. The fields store these title texts unchanged.
\<close>

theorem extractTitleData_First_Last:
  assumes "titleLine fmt = parseLine [(''First'', fF), (''Last'', fL)] ''{*First*} {*Last*}''"
    and "name fF = ''First''" "name fL = ''Last''"
    and "sft fF ''Ann'' = Inr ''Ann''" "sft fL ''Lee'' = Inr ''Lee''"
    and "sft fF ''AnnLee'' = Inr ''AnnLee''"
  shows "extractTitleData sft fmt ''Ann Lee'' dat
           = (Inr True, dat(''First'' \<mapsto> ''Ann'', ''Last'' \<mapsto> ''Lee'')) \<and>
         extractTitleData sft fmt ''AnnLee'' dat
           = (Inr True, dat(''First'' \<mapsto> ''AnnLee'', ''Last'' \<mapsto> []))"
proof -
  have tl: "titleLine fmt = [FieldPart fF, TextPart '' '', FieldPart fL]"
    using assms(1) by (simp add: parseLine_First_Last)
  have m1: "titleMatch (titleLine fmt) ''Ann Lee'' = Some [''Ann'', ''Lee'']"
    unfolding tl by simp
  have m2: "titleMatch (titleLine fmt) ''AnnLee'' = None"
    unfolding tl by simp
  have st: "py_strip '' '' = []" by (simp add: py_strip_def isspace_def)
  have a: "extractTitleData sft fmt ''Ann Lee'' dat
           = (Inr True, dat(''First'' \<mapsto> ''Ann'', ''Last'' \<mapsto> ''Lee''))"
    unfolding extractTitleData_def m1 using assms(2-5) by (simp add: tl)
  have b: "extractTitleData sft fmt ''AnnLee'' dat
           = (Inr True, dat(''First'' \<mapsto> ''AnnLee'', ''Last'' \<mapsto> []))"
    unfolding extractTitleData_def m2 using assms(2,3,6) st by (simp add: tl)
  from a b show ?thesis by (rule conjI)
qed

theorem extractTitleData_First_Last_witness:
  "extractTitleData textOrNumberFromTitle
     ((emptyFormat ''Person'')\<lparr>
        fieldDict := [(''First'', textField ''First''), (''Last'', textField ''Last'')],
        titleLine := parseLine [(''First'', textField ''First''), (''Last'', textField ''Last'')]
                       ''{*First*} {*Last*}''\<rparr>)
     ''Ann Lee'' [''Age'' \<mapsto> ''41'']
   = (Inr True, [''Age'' \<mapsto> ''41'', ''First'' \<mapsto> ''Ann'', ''Last'' \<mapsto> ''Lee''])"
proof -
  let ?fmt = "(emptyFormat ''Person'')\<lparr>
        fieldDict := [(''First'', textField ''First''), (''Last'', textField ''Last'')],
        titleLine := parseLine [(''First'', textField ''First''), (''Last'', textField ''Last'')]
                       ''{*First*} {*Last*}''\<rparr>"
  have h1: "titleLine ?fmt
      = parseLine [(''First'', textField ''First''), (''Last'', textField ''Last'')] ''{*First*} {*Last*}''"
    by simp
  have h2: "name (textField ''First'') = ''First''" "name (textField ''Last'') = ''Last''"
    by (simp_all add: textField_def)
  have h3: "textOrNumberFromTitle (textField ''First'') ''Ann'' = Inr ''Ann''"
    "textOrNumberFromTitle (textField ''Last'') ''Lee'' = Inr ''Lee''"
    "textOrNumberFromTitle (textField ''First'') ''AnnLee'' = Inr ''AnnLee''"
    by (simp_all add: textOrNumberFromTitle_def textField_def)
  from extractTitleData_First_Last [OF h1 h2 h3, of "[''Age'' \<mapsto> ''41'']"]
  show ?thesis by simp
qed

text \<open>
  C5. The claim fails on the source: for the title line \<^verbatim>\<open>{*Name*} {*Qty*}\<close> with a number
  field \<^verbatim>\<open>Qty\<close> and the title \<^verbatim>\<open>Apples many\<close>, the entry of \<^verbatim>\<open>Name\<close> is written before
  \<^verbatim>\<open>Qty\<close> raises \<^verbatim>\<open>ValueError\<close>, and the function returns \<^verbatim>\<open>False\<close> with the data changed.
\<close>

theorem extractTitleData_partial_write:
  "extractTitleData textOrNumberFromTitle
     ((emptyFormat ''Item'')\<lparr>
        fieldDict := [(''Name'', textField ''Name''), (''Qty'', \<lparr>name = ''Qty'', fieldtype = ''Number''\<rparr>)],
        titleLine := [FieldPart (textField ''Name''), TextPart '' '',
                      FieldPart \<lparr>name = ''Qty'', fieldtype = ''Number''\<rparr>]\<rparr>)
     ''Apples many'' Map.empty
   = (Inr False, [''Name'' \<mapsto> ''Apples'']) \<and>
   [''Name'' \<mapsto> ''Apples''] \<noteq> (Map.empty :: string \<Rightarrow> string option)"
proof -
  have "[''Name'' \<mapsto> ''Apples''] ''Name'' \<noteq> (Map.empty :: string \<Rightarrow> string option) ''Name''"
    by simp
  then have ne: "[''Name'' \<mapsto> ''Apples''] \<noteq> (Map.empty :: string \<Rightarrow> string option)"
    by metis
  show ?thesis
    using ne
    by (simp add: extractTitleData_def emptyFormat_def textOrNumberFromTitle_def textField_def)
qed

section \<open>Removing bullets and tables\<close>

lemma lineText_asParts: "lineText (asParts s) = s"
  by (induction s) (simp_all add: lineText_def asParts_def partText_def)

lemma updateLineParsing_fields:
  "fieldDict (updateLineParsing fmt) = fieldDict fmt"
  "siblingPrefix (updateLineParsing fmt) = siblingPrefix fmt"
  "siblingSuffix (updateLineParsing fmt) = siblingSuffix fmt"
  by (simp_all add: updateLineParsing_def Let_def)

lemma updateLineParsing_origOutputLines:
  "origOutputLines (updateLineParsing fmt) =
     map (\<lambda>l. parseLine (fieldDict fmt) (lineText l)) (origOutputLines fmt)"
  by (simp add: updateLineParsing_def Let_def getOutputLines_def comp_def)

lemma updateLineParsing_outputLines:
  "outputLines fmt \<noteq> [] \<Longrightarrow>
   outputLines (updateLineParsing fmt) =
     map (\<lambda>l. parseLine (fieldDict fmt) (lineText l)) (outputLines fmt)"
  by (simp add: updateLineParsing_def Let_def getOutputLines_def comp_def)

lemma addBullets_origOutputLines:
  "origOutputLines (addBullets fmt) =
     map (\<lambda>l. parseLine (fieldDict fmt) (lineText l)) (outputLines fmt)"
  by (simp add: addBullets_def Let_def updateLineParsing_origOutputLines)

lemma addBullets_fieldDict: "fieldDict (addBullets fmt) = fieldDict fmt"
  by (simp add: addBullets_def Let_def updateLineParsing_fields)

lemma addTables_origOutputLines:
  assumes "addTables fmt = Inr fmt'"
  shows "origOutputLines fmt' = map (\<lambda>l. parseLine (fieldDict fmt) (lineText l)) (outputLines fmt) \<and>
         fieldDict fmt' = fieldDict fmt"
  using assms
  by (auto simp: addTables_def Let_def updateLineParsing_origOutputLines updateLineParsing_fields
      split: sum.splits prod.splits if_splits)

lemma clearBulletsAndTables_restores:
  assumes "origOutputLines fmt \<noteq> []"
    and "\<forall>l \<in> set (origOutputLines fmt). parseLine (fieldDict fmt) (lineText l) = l"
  shows "outputLines (clearBulletsAndTables fmt) = origOutputLines fmt"
proof -
  let ?f = "fmt\<lparr>siblingPrefix := [], siblingSuffix := [], outputLines := origOutputLines fmt\<rparr>"
  have "outputLines (clearBulletsAndTables fmt) = outputLines (updateLineParsing ?f)"
    using assms(1) by (simp add: clearBulletsAndTables_def Let_def)
  also have "\<dots> = map (\<lambda>l. parseLine (fieldDict fmt) (lineText l)) (origOutputLines fmt)"
    using assms(1) updateLineParsing_outputLines [of ?f] by simp
  also have "\<dots> = origOutputLines fmt"
    using assms(2) by (simp add: map_idI)
  finally show ?thesis .
qed

lemma clearBulletsAndTables_wrapping:
  "siblingPrefix (clearBulletsAndTables fmt) = [] \<and> siblingSuffix (clearBulletsAndTables fmt) = [] \<and>
   origOutputLines (clearBulletsAndTables fmt) = []"
  by (simp add: clearBulletsAndTables_def Let_def updateLineParsing_fields)

lemma linesCompiled_parseLine:
  assumes "fieldDict_ok (fieldDict fmt)" "outputLines fmt = map (parseLine (fieldDict fmt)) raw"
  shows "linesCompiled fmt"
  unfolding linesCompiled_def assms(2)
  using lineText_parseLine [OF assms(1)] normalize_ws_idem by (auto simp: parseLine_def)

lemmas eval_defs = emptyFormat_def clearBulletsAndTables_def addBullets_def addTables_def
      updateLineParsing_def getOutputLines_def getTitleLine_def lineText_def partText_def asParts_def
      parseLine_def normalize_ws_def py_split_def isspace_def fieldMatch_def parseField_def
      itemFormat_def textField_def sepName_def modifierMatch_def isnamechar_def isword_def fieldRef_def
      py_strip_def

text \<open>
  C7, as stated, fails. A format with no output line (as \<^verbatim>\<open>changeOutputLines\<close> leaves it
  when every line it is given is blank) has the line list \<^verbatim>\<open>[[]]\<close>, one empty line, after
  \<^verbatim>\<open>addBullets\<close> and \<^verbatim>\<open>clearBulletsAndTables\<close> (the snapshot is empty, so nothing is
  restored), and \<^verbatim>\<open>addTables\<close> raises \<^verbatim>\<open>IndexError\<close> on it. Lines that are not in compiled
  form (as \<^verbatim>\<open>removeField\<close> can leave them) come back parsed again: two adjacent texts
  come back as one.
\<close>

theorem clearBulletsAndTables_empty_lines:
  "outputLines (emptyFormat ''T'') = [] \<and>
   outputLines (clearBulletsAndTables (addBullets (emptyFormat ''T''))) = [[]] \<and>
   map_sum fst outputLines (addTables (emptyFormat ''T'')) = Inl IndexError \<and>
   outputLines (clearBulletsAndTables (addBullets
      ((emptyFormat ''T'')\<lparr>outputLines := [[TextPart ''a '', TextPart '' b'']]\<rparr>))) = [[TextPart ''a b'']]"
  by (simp add: emptyFormat_def clearBulletsAndTables_def addBullets_def addTables_def
      updateLineParsing_def getOutputLines_def getTitleLine_def lineText_def partText_def asParts_def
      parseLine_def normalize_ws_def py_split_def isspace_def fieldMatch_def parseField_def)

text \<open>
  C7, amended. For every format with at least one output line, its output lines in
  compiled form: \<^verbatim>\<open>clearBulletsAndTables\<close> after \<^verbatim>\<open>addBullets\<close>, and after \<^verbatim>\<open>addTables\<close>
  when \<^verbatim>\<open>addTables\<close> returns, leaves \<^verbatim>\<open>outputLines\<close> equal to the list held before the
  decoration, and the sibling prefix and suffix empty.
\<close>

theorem clearBulletsAndTables_after_decoration:
  assumes "outputLines fmt \<noteq> []" "linesCompiled fmt"
  shows "outputLines (clearBulletsAndTables (addBullets fmt)) = outputLines fmt \<and>
         siblingPrefix (clearBulletsAndTables (addBullets fmt)) = [] \<and>
         siblingSuffix (clearBulletsAndTables (addBullets fmt)) = [] \<and>
         (\<forall>fmt'. addTables fmt = Inr fmt' \<longrightarrow>
            outputLines (clearBulletsAndTables fmt') = outputLines fmt \<and>
            siblingPrefix (clearBulletsAndTables fmt') = [] \<and>
            siblingSuffix (clearBulletsAndTables fmt') = [])"
proof -
  have fixp: "map (\<lambda>l. parseLine (fieldDict fmt) (lineText l)) (outputLines fmt) = outputLines fmt"
    using assms(2) by (simp add: linesCompiled_def map_idI)
  have ob: "origOutputLines (addBullets fmt) = outputLines fmt"
    using addBullets_origOutputLines [of fmt] fixp by simp
  have b: "outputLines (clearBulletsAndTables (addBullets fmt)) = outputLines fmt"
    using clearBulletsAndTables_restores [of "addBullets fmt"] ob assms
    by (simp add: addBullets_fieldDict linesCompiled_def)
  have t: "outputLines (clearBulletsAndTables fmt') = outputLines fmt" if "addTables fmt = Inr fmt'" for fmt'
  proof -
    from addTables_origOutputLines [OF that] fixp
    have o: "origOutputLines fmt' = outputLines fmt" and fd: "fieldDict fmt' = fieldDict fmt" by simp_all
    show ?thesis
      using clearBulletsAndTables_restores [of fmt'] o fd assms by (simp add: linesCompiled_def)
  qed
  show ?thesis using b t clearBulletsAndTables_wrapping by blast
qed

theorem clearBulletsAndTables_after_decoration_witness:
  "outputLines (clearBulletsAndTables (addBullets itemFormat)) = outputLines itemFormat \<and>
   siblingPrefix (addBullets itemFormat) = ''<ul>'' \<and>
   siblingPrefix (clearBulletsAndTables (addBullets itemFormat)) = [] \<and>
   \<not> isl (addTables itemFormat) \<and>
   outputLines (clearBulletsAndTables (projr (addTables itemFormat))) = outputLines itemFormat"
proof -
  have ne: "outputLines itemFormat \<noteq> []" by (simp add: itemFormat_def)
  have co: "linesCompiled itemFormat"
    by (simp add: linesCompiled_def eval_defs)
  have tb: "\<not> isl (addTables itemFormat)"
    by (simp add: eval_defs)
  then have pr: "addTables itemFormat = Inr (projr (addTables itemFormat))"
    by (cases "addTables itemFormat") simp_all
  have ul: "siblingPrefix (addBullets itemFormat) = ''<ul>''"
    by (simp add: addBullets_def Let_def updateLineParsing_def)
  from clearBulletsAndTables_after_decoration [OF ne co] pr tb ul show ?thesis by blast
qed

section \<open>Replacing duplicate ids\<close>

lemma update_fresh: "k \<notin> fst ` set al \<Longrightarrow> AList.update k v al = al @ [(k, v)]"
  by (induction al) auto

lemma set_delete: "set (AList.delete k al) = {p \<in> set al. fst p \<noteq> k}"
  by (auto simp: AList.delete_eq)

lemma length_delete_distinct:
  "distinct (map fst al) \<Longrightarrow> k \<in> fst ` set al \<Longrightarrow> Suc (length (AList.delete k al)) = length al"
proof (induction al)
  case Nil
  then show ?case by simp
next
  case (Cons p al)
  show ?case
  proof (cases "fst p = k")
    case True
    with Cons.prems(1) have "k \<notin> fst ` set al" by auto
    with True show ?thesis by (cases p) simp
  next
    case False
    with Cons show ?thesis by (cases p) auto
  qed
qed

lemma nodeDict_ok_key: "nodeDict_ok h d \<Longrightarrow> (k, r) \<in> set d \<Longrightarrow> uId (h r) = k"
  by (auto simp: nodeDict_ok_def)

lemma replaceLoop_frame:
  "replaceLoop uuid dup rs (n, h, s) = Inr (n', h', s') \<Longrightarrow>
     (\<forall>r. data (h' r) = data (h r) \<and> childList (h' r) = childList (h r) \<and>
          spotRefs (h' r) = spotRefs (h r) \<and> formatRef (h' r) = formatRef (h r)) \<and>
     childList s' = childList s \<and> treeFormats s' = treeFormats s"
proof (induction rs arbitrary: n h s)
  case Nil
  then show ?case by simp
next
  case (Cons node rest)
  show ?case
  proof (cases "uId (h node) \<in> dup")
    case False
    with Cons.prems have "replaceLoop uuid dup rest (n, h, s) = Inr (n', h', s')" by simp
    from Cons.IH [OF this] show ?thesis .
  next
    case True
    let ?h = "h(node := (h node)\<lparr>uId := uuid n\<rparr>)"
    let ?s = "s\<lparr>nodeDict := AList.update (uuid n) node (AList.delete (uId (h node)) (nodeDict s))\<rparr>"
    from Cons.prems True have "replaceLoop uuid dup rest (Suc n, ?h, ?s) = Inr (n', h', s')"
      by (simp add: Let_def split: if_splits)
    from Cons.IH [OF this] show ?thesis by (simp split: if_splits)
  qed
qed

lemma replaceLoop_uId:
  "replaceLoop uuid dup rs (n, h, s) = Inr (n', h', s') \<Longrightarrow> uId (h r) \<notin> dup \<Longrightarrow>
     uId (h' r) = uId (h r)"
proof (induction rs arbitrary: n h s)
  case Nil
  then show ?case by simp
next
  case (Cons node rest)
  show ?case
  proof (cases "uId (h node) \<in> dup")
    case False
    with Cons.prems have "replaceLoop uuid dup rest (n, h, s) = Inr (n', h', s')" by simp
    from Cons.IH [OF this Cons.prems(2)] show ?thesis .
  next
    case True
    let ?h = "h(node := (h node)\<lparr>uId := uuid n\<rparr>)"
    let ?s = "s\<lparr>nodeDict := AList.update (uuid n) node (AList.delete (uId (h node)) (nodeDict s))\<rparr>"
    from Cons.prems True have run: "replaceLoop uuid dup rest (Suc n, ?h, ?s) = Inr (n', h', s')"
      by (simp add: Let_def split: if_splits)
    from True Cons.prems(2) have "r \<noteq> node" by auto
    then have same: "?h r = h r" by simp
    from Cons.IH [OF run] Cons.prems(2) same show ?thesis by simp
  qed
qed

lemma loop_inv_skip:
  assumes "loop_inv uuid dup n h d (node # rest)" "uId (h node) \<notin> dup"
  shows "loop_inv uuid dup n h d rest"
proof -
  from assms(1) have ok: "nodeDict_ok h d" by (simp add: loop_inv_def)
  have "r \<in> set rest" if "(k, r) \<in> set d" "k \<in> dup" for k r
  proof -
    from assms(1) that have "r \<in> set (node # rest)" by (auto simp: loop_inv_def)
    moreover have "r \<noteq> node" using nodeDict_ok_key [OF ok that(1)] that(2) assms(2) by auto
    ultimately show ?thesis by simp
  qed
  with assms(1) show ?thesis by (auto simp: loop_inv_def)
qed

lemma loop_inv_step:
  assumes inv: "loop_inv uuid dup n h d (node # rest)" and dup: "uId (h node) \<in> dup"
  defines "h' \<equiv> h(node := (h node)\<lparr>uId := uuid n\<rparr>)"
    and "d' \<equiv> AList.update (uuid n) node (AList.delete (uId (h node)) d)"
  shows "uId (h node) \<in> fst ` set d" and "loop_inv uuid dup (Suc n) h' d' rest"
    and "length d' = length d" and "snd ` set d' = snd ` set d"
proof -
  let ?k0 = "uId (h node)" and ?u = "uuid n"
  from inv have ok: "nodeDict_ok h d" and sub: "set (node # rest) \<subseteq> snd ` set d"
    and fr: "fresh_ids uuid n (fst ` set d \<union> dup)"
    and P: "\<forall>(k, r) \<in> set d. k \<in> dup \<longrightarrow> r \<in> set (node # rest)"
    by (simp_all add: loop_inv_def)
  from ok have dist: "distinct (map fst d)" by (simp add: nodeDict_ok_def)
  from sub obtain k where "(k, node) \<in> set d" by force
  with nodeDict_ok_key [OF ok this] have mem: "(?k0, node) \<in> set d" by simp
  then show key: "?k0 \<in> fst ` set d" by force
  from fr have u_new: "?u \<notin> fst ` set d" and u_dup: "?u \<notin> dup"
    by (auto simp: fresh_ids_def)
  have u1: "?u \<notin> fst ` set (AList.delete ?k0 d)"
    using u_new by (auto simp: set_delete)
  have d': "d' = AList.delete ?k0 d @ [(?u, node)]"
    unfolding d'_def by (rule update_fresh [OF u1])
  have other: "r \<noteq> node" if "(k, r) \<in> set d" "k \<noteq> ?k0" for k r
    using nodeDict_ok_key [OF ok that(1)] that(2) by auto
  have only: "r = node" if "(?k0, r) \<in> set d" for r
    using dist mem that by (meson eq_key_imp_eq_value)
  show len: "length d' = length d"
    using length_delete_distinct [OF dist key] by (simp add: d')
  show vals: "snd ` set d' = snd ` set d"
  proof
    show "snd ` set d' \<subseteq> snd ` set d" using mem by (auto simp: d' set_delete) force+
    show "snd ` set d \<subseteq> snd ` set d'"
    proof
      fix r assume "r \<in> snd ` set d"
      then obtain k where kr: "(k, r) \<in> set d" by force
      show "r \<in> snd ` set d'"
      proof (cases "k = ?k0")
        case True
        with only kr have "r = node" by simp
        then show ?thesis by (simp add: d')
      next
        case False
        with kr have "(k, r) \<in> set (AList.delete ?k0 d)" by (simp add: set_delete)
        then show ?thesis by (force simp: d')
      qed
    qed
  qed
  have ok': "nodeDict_ok h' d'"
  proof -
    have "distinct (map fst d')"
      using dist u1 by (simp add: d' AList.distinct_delete)
    moreover have "uId (h' r) = k" if "(k, r) \<in> set d'" for k r
    proof (cases "(k, r) = (?u, node)")
      case True
      then show ?thesis by (simp add: h'_def)
    next
      case False
      with that have kr: "(k, r) \<in> set d" "k \<noteq> ?k0" by (auto simp: d' set_delete)
      from other [OF kr] have "h' r = h r" by (simp add: h'_def)
      with nodeDict_ok_key [OF ok kr(1)] show ?thesis by simp
    qed
    ultimately show ?thesis by (auto simp: nodeDict_ok_def)
  qed
  have fr': "fresh_ids uuid (Suc n) (fst ` set d' \<union> dup)"
  proof -
    have "uuid i \<notin> fst ` set d' \<union> dup" if "Suc n \<le> i" for i
    proof -
      from fr that have a: "uuid i \<notin> fst ` set d \<union> dup"
        by (auto simp: fresh_ids_def)
      from fr have "uuid i = ?u \<longrightarrow> i = n" unfolding fresh_ids_def by blast
      with that have b: "uuid i \<noteq> ?u" by auto
      have "fst ` set d' \<subseteq> fst ` set d \<union> {?u}" by (auto simp: d' set_delete)
      with a b show ?thesis by auto
    qed
    with fr show ?thesis by (simp add: fresh_ids_def)
  qed
  have P': "r \<in> set rest" if "(k, r) \<in> set d'" "k \<in> dup" for k r
  proof -
    from that u_dup have kr: "(k, r) \<in> set d" "k \<noteq> ?k0" by (auto simp: d' set_delete)
    with P that(2) have "r \<in> set (node # rest)" by auto
    with other [OF kr] show ?thesis by simp
  qed
  from sub vals have "set rest \<subseteq> snd ` set d'" by simp
  with ok' fr' P' show "loop_inv uuid dup (Suc n) h' d' rest"
    by (auto simp: loop_inv_def)
qed

lemma replaceLoop_inv:
  "loop_inv uuid dup n h (nodeDict s) rs \<Longrightarrow>
     \<exists>n' h' s'. replaceLoop uuid dup rs (n, h, s) = Inr (n', h', s') \<and>
        loop_inv uuid dup n' h' (nodeDict s') [] \<and>
        length (nodeDict s') = length (nodeDict s) \<and>
        snd ` set (nodeDict s') = snd ` set (nodeDict s)"
proof (induction rs arbitrary: n h s)
  case Nil
  then show ?case by simp
next
  case (Cons node rest)
  show ?case
  proof (cases "uId (h node) \<in> dup")
    case False
    from Cons.IH [OF loop_inv_skip [OF Cons.prems False]] False show ?thesis by simp
  next
    case True
    let ?h = "h(node := (h node)\<lparr>uId := uuid n\<rparr>)"
    let ?d = "AList.update (uuid n) node (AList.delete (uId (h node)) (nodeDict s))"
    let ?s = "s\<lparr>nodeDict := ?d\<rparr>"
    note st = loop_inv_step [OF Cons.prems True]
    have "loop_inv uuid dup (Suc n) ?h (nodeDict ?s) rest" using st(2) by simp
    from Cons.IH [OF this] obtain n' h' s' where
      run: "replaceLoop uuid dup rest (Suc n, ?h, ?s) = Inr (n', h', s')"
      and inv: "loop_inv uuid dup n' h' (nodeDict s') []"
      and len: "length (nodeDict s') = length (nodeDict ?s)"
      and vals: "snd ` set (nodeDict s') = snd ` set (nodeDict ?s)" by blast
    have "replaceLoop uuid dup (node # rest) (n, h, s) = Inr (n', h', s')"
      using True st(1) run by (simp add: Let_def)
    with inv len vals st(3,4) show ?thesis by simp
  qed
qed

text \<open>
  C10. For every structure whose identity table holds each node under its own id, and
  every set of duplicate ids, when the minted ids are unique: \<^verbatim>\<open>replaceDuplicateIds\<close>
  returns (no \<^verbatim>\<open>KeyError\<close>); the table has as many entries as before and the same nodes;
  every node keeps its data, child list, spots and type; the top-level list and the formats
  are unchanged; every node whose id is not a duplicate keeps its id and stays under it in
  the table; and no key of the table is a duplicate.
\<close>

theorem replaceDuplicateIds_changes_keys_only:
  assumes "nodeDict_ok h (nodeDict self)"
    and "fresh_ids uuid n (fst ` set (nodeDict self) \<union> dup)"
  shows "\<exists>n' h' self'.
     replaceDuplicateIds uuid dup (n, h, self) = Inr (n', h', self') \<and>
     length (nodeDict self') = length (nodeDict self) \<and>
     snd ` set (nodeDict self') = snd ` set (nodeDict self) \<and>
     nodeDict_ok h' (nodeDict self') \<and>
     (\<forall>r. data (h' r) = data (h r) \<and> childList (h' r) = childList (h r) \<and>
          spotRefs (h' r) = spotRefs (h r) \<and> formatRef (h' r) = formatRef (h r)) \<and>
     childList self' = childList self \<and> treeFormats self' = treeFormats self \<and>
     (\<forall>r. uId (h r) \<notin> dup \<longrightarrow> uId (h' r) = uId (h r)) \<and>
     (\<forall>(k, r) \<in> set (nodeDict self). k \<notin> dup \<longrightarrow> map_of (nodeDict self') k = Some r) \<and>
     fst ` set (nodeDict self') \<inter> dup = {}"
proof -
  let ?rs = "map snd (nodeDict self)"
  have "loop_inv uuid dup n h (nodeDict self) ?rs"
    using assms by (force simp: loop_inv_def)
  from replaceLoop_inv [OF this] obtain n' h' s' where
    run: "replaceLoop uuid dup ?rs (n, h, self) = Inr (n', h', s')"
    and inv: "loop_inv uuid dup n' h' (nodeDict s') []"
    and len: "length (nodeDict s') = length (nodeDict self)"
    and vals: "snd ` set (nodeDict s') = snd ` set (nodeDict self)" by blast
  from inv have ok': "nodeDict_ok h' (nodeDict s')" by (simp add: loop_inv_def)
  from inv have nodup: "fst ` set (nodeDict s') \<inter> dup = {}" by (force simp: loop_inv_def)
  note frame = replaceLoop_frame [OF run]
  have keep: "uId (h' r) = uId (h r)" if "uId (h r) \<notin> dup" for r
    using replaceLoop_uId [OF run that] .
  have kept: "map_of (nodeDict s') k = Some r" if "(k, r) \<in> set (nodeDict self)" "k \<notin> dup" for k r
  proof -
    from that(1) vals have "r \<in> snd ` set (nodeDict s')" by force
    then obtain k' where k': "(k', r) \<in> set (nodeDict s')" by force
    have "uId (h r) = k" using nodeDict_ok_key [OF assms(1) that(1)] .
    with keep [of r] that(2) have "uId (h' r) = k" by simp
    with nodeDict_ok_key [OF ok' k'] have "k' = k" by simp
    with k' ok' show ?thesis by (simp add: nodeDict_ok_def)
  qed
  have "replaceDuplicateIds uuid dup (n, h, self) = Inr (n', h', s')"
    using run by (simp add: replaceDuplicateIds_def)
  with len vals ok' frame keep kept nodup show ?thesis by blast
qed

theorem replaceDuplicateIds_changes_keys_only_witness:
  "map_sum id (\<lambda>(n, h, s). (n, nodeDict s, uId (h 1), uId (h 2)))
     (replaceDuplicateIds uuidExample {''a'', ''c''}
        (0, (\<lambda>r. plainNode ''x'' [] [])(1 := plainNode ''a'' [2] [], 2 := plainNode ''b'' [] []),
         structOf [1] [(''a'', 1), (''b'', 2)]))
   = Inr (1, [(''b'', 2), (''u'', 1)], ''u'', ''b'')"
proof -
  let ?h = "(\<lambda>r. plainNode ''x'' [] [])(1 := plainNode ''a'' [2] [], 2 := plainNode ''b'' [] [])"
  let ?s = "structOf [1] [(''a'', 1), (''b'', 2)]"
  have ok: "nodeDict_ok ?h (nodeDict ?s)"
    by (simp add: nodeDict_ok_def structOf_def plainNode_def)
  have fr: "fresh_ids uuidExample 0 (fst ` set (nodeDict ?s) \<union> {''a'', ''c''})"
    by (simp add: fresh_ids_def uuidExample_def structOf_def)
  from replaceDuplicateIds_changes_keys_only [OF ok fr] show ?thesis
    by (simp add: replaceDuplicateIds_def structOf_def plainNode_def uuidExample_def)
qed

section \<open>Merging another structure\<close>

lemma addChildren_nodeDict:
  "nodeDict (snd (endState (addChildren asr nodes parent position (h, self)))) = nodeDict self"
proof (induction nodes arbitrary: parent position h self)
  case Nil
  then show ?case by (simp add: endState_def)
next
  case (Cons node rest)
  show ?case
  proof (cases parent)
    case Self
    then show ?thesis using Cons [of PyNone] by simp
  next
    case (Node p)
    then show ?thesis using Cons [of "Node p"] by simp
  next
    case PyNone
    then show ?thesis by (simp add: endState_def)
  qed
qed

lemma addChildren_under_node:
  "\<not> isl (addChildren asr nodes (Node p) position (h, self))"
  by (induction nodes arbitrary: position h self) simp_all

lemma addChildren_error:
  "(case addChildren asr nodes parent position (h, self) of
      Inl (e, st) \<Rightarrow> e = AttributeError | Inr st \<Rightarrow> True)"
proof (induction nodes arbitrary: parent position h self)
  case Nil
  then show ?case by simp
next
  case (Cons node rest)
  show ?case
  proof (cases parent)
    case Self
    then show ?thesis using Cons [of PyNone] by simp
  next
    case (Node p)
    then show ?thesis using Cons [of "Node p"] by simp
  next
    case PyNone
    then show ?thesis by simp
  qed
qed

lemma foldl_update_map_of:
  assumes "distinct (map fst al)" "\<forall>(k, r) \<in> set al. uId (h r) = k"
  shows "map_of (foldl (\<lambda>d node. AList.update (uId (h node)) node d) d0 (map snd al))
           = map_of d0 ++ map_of al"
  using assms
proof (induction al arbitrary: d0)
  case Nil
  then show ?case by simp
next
  case (Cons p al)
  obtain k r where p: "p = (k, r)" by (cases p)
  from Cons.prems p have k: "uId (h r) = k" and notin: "k \<notin> fst ` set al"
    and d: "distinct (map fst al)" and rest: "\<forall>(k, r) \<in> set al. uId (h r) = k"
    by auto
  from notin have none: "map_of al k = None" by (simp add: map_of_eq_None_iff)
  have "map_of (foldl (\<lambda>d node. AList.update (uId (h node)) node d) d0 (map snd (p # al)))
          = map_of (AList.update k r d0) ++ map_of al"
    using Cons.IH [OF d rest, of "AList.update k r d0"] p k by simp
  also have "\<dots> = map_of d0 ++ map_of (p # al)"
    using none by (auto simp: p AList.update_conv' map_add_def fun_eq_iff split: option.splits)
  finally show ?case .
qed

text \<open>
  C9, as stated, fails: the source has no check for an id that is already a key of the
  target's table. A source node with the id \<^verbatim>\<open>a\<close> of a target node takes its place in
  \<^verbatim>\<open>nodeDict\<close>, and the call returns.
\<close>

theorem addNodesFromStruct_collision_overwrites:
  "map_sum fst (\<lambda>(h, s). (nodeDict s, childList s))
     (addNodesFromStruct noSpots (structOf [2] [(''a'', 2)]) Self (- 1)
        ((\<lambda>r. plainNode ''x'' [] [])(1 := plainNode ''a'' [] [], 2 := plainNode ''a'' [] []),
         structOf [1] [(''a'', 1)]))
   = Inr ([(''a'', 2)], [1, 2])"
  by (simp add: addNodesFromStruct_def structOf_def plainNode_def noSpots_def list_insert_def)

lemma list_splice_Nil: "list_splice position [] xs = xs"
  by (simp add: list_splice_def)

lemma list_splice_one: "list_splice position [x] xs = list_insert position x xs"
  by (simp add: list_splice_def list_insert_def)

lemma list_splice_Cons:
  "list_splice (if position \<ge> 0 then position + 1 else position) ys (list_insert position y xs)
     = list_splice position (y # ys) xs"
proof (cases "position \<ge> 0")
  case False
  then show ?thesis by (simp add: list_splice_def list_insert_def)
next
  case True
  then have n: "nat (position + 1) = Suc (nat position)" by simp
  show ?thesis
  proof (cases "nat position \<le> length xs")
    case le: True
    then have len: "length (take (nat position) xs) = nat position" by simp
    have t: "take (Suc (nat position)) (take (nat position) xs @ [y] @ drop (nat position) xs)
               = take (nat position) xs @ [y]"
      using len by simp
    have d: "drop (Suc (nat position)) (take (nat position) xs @ [y] @ drop (nat position) xs)
               = drop (nat position) xs"
      using len by simp
    show ?thesis using True n t d by (simp add: list_splice_def list_insert_def)
  next
    case gt: False
    then show ?thesis using True n by (simp add: list_splice_def list_insert_def)
  qed
qed

lemma addChildren_under_node_splice:
  assumes "keepsChildLists asr"
  shows "\<exists>h'. addChildren asr nodes (Node p) position (h, self) = Inr (h', self) \<and>
           childList (h' p) = list_splice position nodes (childList (h p)) \<and>
           (\<forall>r. r \<noteq> p \<longrightarrow> childList (h' r) = childList (h r))"
proof (induction nodes arbitrary: position h)
  case Nil
  then show ?case by (simp add: list_splice_Nil)
next
  case (Cons node rest)
  let ?pos = "if position \<ge> 0 then position + 1 else position"
  let ?h0 = "h(p := (h p)\<lparr>childList := list_insert position node (childList (h p))\<rparr>)"
  let ?h1 = "asr node (Some p) ?h0"
  have keep: "childList (?h1 r) = childList (?h0 r)" for r
    using assms by (simp add: keepsChildLists_def)
  from Cons.IH [of ?pos ?h1] obtain h' where
    run: "addChildren asr rest (Node p) ?pos (?h1, self) = Inr (h', self)"
    and cl: "childList (h' p) = list_splice ?pos rest (childList (?h1 p))"
    and others: "\<forall>r. r \<noteq> p \<longrightarrow> childList (h' r) = childList (?h1 r)" by blast
  have "addChildren asr (node # rest) (Node p) position (h, self) = Inr (h', self)"
    using run by simp
  moreover have "childList (h' p) = list_splice position (node # rest) (childList (h p))"
    using cl keep [of p] list_splice_Cons [of position rest node "childList (h p)"] by simp
  moreover have "\<forall>r. r \<noteq> p \<longrightarrow> childList (h' r) = childList (h r)"
    using others keep by simp
  ultimately show ?case by blast
qed

lemma addChildren_self_splice:
  assumes "keepsChildLists asr" "length nodes \<le> 1"
  shows "\<exists>h' self'. addChildren asr nodes Self position (h, self) = Inr (h', self') \<and>
           childList self' = list_splice position nodes (childList self) \<and>
           nodeDict self' = nodeDict self \<and>
           (\<forall>r. childList (h' r) = childList (h r))"
proof (cases nodes)
  case Nil
  then show ?thesis by (simp add: list_splice_Nil)
next
  case (Cons node rest)
  with assms(2) have "rest = []" by simp
  with Cons assms(1) show ?thesis
    by (simp add: list_splice_one keepsChildLists_def)
qed


lemma addChildren_self_two:
  "addChildren asr (n1 # n2 # rest) Self position (h, self) =
     Inl (AttributeError, asr n1 None h,
          self\<lparr>childList := list_insert position n1 (childList self)\<rparr>)"
  by simp

text \<open>
  C9, amended. When the source structure holds each of its nodes under the node's own id,
  \<^verbatim>\<open>addNodesFromStruct\<close> makes no check for an id that is already a key of the target's
  table: after the call the target's table is its old table overridden by the source's, so
  an id present in both names the source's node and every other entry is kept, and no
  exception is raised for the colliding id. Under a parent node the call returns, and the
  parent's child list is its old list with the source's top-level nodes put in, in order,
  at \<^verbatim>\<open>position\<close> (at the end when \<^verbatim>\<open>position\<close> is negative); no other child list changes.
  Under the structure itself, with at most one top-level node in the source, the call
  returns and the top-level list is spliced in the same way.
\<close>

theorem addNodesFromStruct_merge:
  assumes "nodeDict_ok h (nodeDict treeStruct)" "keepsChildLists asr"
  shows "map_of (nodeDict (snd (endState (addNodesFromStruct asr treeStruct parent position (h, self)))))
           = map_of (nodeDict self) ++ map_of (nodeDict treeStruct) \<and>
         (case addNodesFromStruct asr treeStruct parent position (h, self) of
            Inl (e, st) \<Rightarrow> e = AttributeError | Inr st \<Rightarrow> True) \<and>
         (\<exists>h' self'.
            addNodesFromStruct asr treeStruct (Node p) position (h, self) = Inr (h', self') \<and>
            childList (h' p) = list_splice position (childList treeStruct) (childList (h p)) \<and>
            (\<forall>r. r \<noteq> p \<longrightarrow> childList (h' r) = childList (h r)) \<and>
            childList self' = childList self) \<and>
         (length (childList treeStruct) \<le> 1 \<longrightarrow>
            (\<exists>h' self'.
               addNodesFromStruct asr treeStruct Self position (h, self) = Inr (h', self') \<and>
               childList self' = list_splice position (childList treeStruct) (childList self) \<and>
               (\<forall>r. childList (h' r) = childList (h r))))"
proof -
  let ?self2 = "self\<lparr>treeFormats :=
                    foldl addTypeIfMissing (treeFormats self) (map snd (treeFormats treeStruct)),
                  nodeDict :=
                    foldl (\<lambda>d node. AList.update (uId (h node)) node d) (nodeDict self)
                      (map snd (nodeDict treeStruct))\<rparr>"
  have run: "addNodesFromStruct asr treeStruct par position (h, self)
               = addChildren asr (childList treeStruct) par position (h, ?self2)" for par
    by (simp add: addNodesFromStruct_def Let_def)
  from assms(1) have d: "distinct (map fst (nodeDict treeStruct))"
    and k: "\<forall>(k, r) \<in> set (nodeDict treeStruct). uId (h r) = k"
    by (auto simp: nodeDict_ok_def)
  have c1: "map_of (nodeDict (snd (endState (addNodesFromStruct asr treeStruct parent position (h, self)))))
           = map_of (nodeDict self) ++ map_of (nodeDict treeStruct)"
    using foldl_update_map_of [OF d k, of "nodeDict self"]
    by (simp add: run addChildren_nodeDict)
  have c2: "(case addNodesFromStruct asr treeStruct parent position (h, self) of
            Inl (e, st) \<Rightarrow> e = AttributeError | Inr st \<Rightarrow> True)"
    using addChildren_error [of asr "childList treeStruct" parent position h ?self2]
    by (simp add: run)
  from addChildren_under_node_splice [OF assms(2), of "childList treeStruct" p position h ?self2]
  obtain h' where "addChildren asr (childList treeStruct) (Node p) position (h, ?self2) = Inr (h', ?self2)"
    and "childList (h' p) = list_splice position (childList treeStruct) (childList (h p))"
    and "\<forall>r. r \<noteq> p \<longrightarrow> childList (h' r) = childList (h r)" by blast
  then have c3: "\<exists>h' self'.
            addNodesFromStruct asr treeStruct (Node p) position (h, self) = Inr (h', self') \<and>
            childList (h' p) = list_splice position (childList treeStruct) (childList (h p)) \<and>
            (\<forall>r. r \<noteq> p \<longrightarrow> childList (h' r) = childList (h r)) \<and>
            childList self' = childList self"
    unfolding run by (intro exI [of _ h'] exI [of _ ?self2]) simp
  have c4: "\<exists>h' self'.
               addNodesFromStruct asr treeStruct Self position (h, self) = Inr (h', self') \<and>
               childList self' = list_splice position (childList treeStruct) (childList self) \<and>
               (\<forall>r. childList (h' r) = childList (h r))"
    if "length (childList treeStruct) \<le> 1"
    using addChildren_self_splice [OF assms(2) that, of position h ?self2]
    unfolding run by auto
  from c1 c2 c3 c4 show ?thesis by blast
qed

theorem addNodesFromStruct_merge_witness:
  "map_sum fst (\<lambda>(h, s). (nodeDict s, childList s, childList (h 1), spotRefs (h 2)))
     (addNodesFromStruct addSpotsUnder (structOf [2, 4] [(''a'', 2), (''b'', 4)]) (Node 1) 0
        ((\<lambda>r. plainNode ''x'' [] [])
           (1 := plainNode ''a'' [3] [Spot 1 None], 2 := plainNode ''a'' [] [],
            3 := plainNode ''c'' [] [Spot 3 (Some (Spot 1 None))], 4 := plainNode ''b'' [] []),
         structOf [1] [(''a'', 1), (''c'', 3)]))
   = Inr ([(''a'', 2), (''c'', 3), (''b'', 4)], [1], [2, 4, 3], [Spot 2 (Some (Spot 1 None))]) \<and>
   map_sum fst (\<lambda>(h, s). (nodeDict s, childList s, childList (h 1)))
     (addNodesFromStruct addSpotsUnder (structOf [2] [(''a'', 2)]) Self (- 1)
        ((\<lambda>r. plainNode ''x'' [] [])
           (1 := plainNode ''a'' [3] [Spot 1 None], 2 := plainNode ''a'' [] [],
            3 := plainNode ''c'' [] [Spot 3 (Some (Spot 1 None))], 4 := plainNode ''b'' [] []),
         structOf [1] [(''a'', 1), (''c'', 3)]))
   = Inr ([(''a'', 2), (''c'', 3)], [1, 2], [3])"
proof -
  let ?h = "(\<lambda>r. plainNode ''x'' [] [])
           (1 := plainNode ''a'' [3] [Spot 1 None], 2 := plainNode ''a'' [] [],
            3 := plainNode ''c'' [] [Spot 3 (Some (Spot 1 None))], 4 := plainNode ''b'' [] [])"
  have ok1: "nodeDict_ok ?h (nodeDict (structOf [2, 4] [(''a'', 2), (''b'', 4)]))"
    by (simp add: nodeDict_ok_def structOf_def plainNode_def)
  have ok2: "nodeDict_ok ?h (nodeDict (structOf [2] [(''a'', 2)]))"
    by (simp add: nodeDict_ok_def structOf_def plainNode_def)
  have keep: "keepsChildLists addSpotsUnder"
    by (simp add: keepsChildLists_def addSpotsUnder_def)
  from addNodesFromStruct_merge [OF ok1 keep, of "Node 1" 0 "structOf [1] [(''a'', 1), (''c'', 3)]" 1]
    addNodesFromStruct_merge [OF ok2 keep, of Self "- 1" "structOf [1] [(''a'', 1), (''c'', 3)]" 1]
  show ?thesis
    by (simp add: addNodesFromStruct_def structOf_def plainNode_def addSpotsUnder_def
        list_insert_def)
qed

section \<open>Deleting a spot\<close>

text \<open>
  C1. The claim fails on the source. In the example every spot is a valid position. After
  the only spot of \<^verbatim>\<open>d\<close> is deleted, \<^verbatim>\<open>m\<close> is visited twice: the first visit leaves it its
  spot under \<^verbatim>\<open>q\<close>, the second finds \<^verbatim>\<open>len(node.spotRefs) <= 1\<close> and removes \<^verbatim>\<open>m\<close> from
  \<^verbatim>\<open>nodeDict\<close> and empties its spots, although \<^verbatim>\<open>m\<close> is still a child of the top-level node
  \<^verbatim>\<open>q\<close>. Any fuel of three or more gives this result.
\<close>

theorem deleteNodeSpot_purges_clone:
  "list_all (\<lambda>node. list_all (spotValid cloneHeap cloneStruct node) (spotRefs (cloneHeap node)))
     [1, 2, 3, 4] \<and>
   descendantGen (Suc (Suc (Suc k))) cloneHeap 2 = Some [2, 3, 4, 4] \<and>
   map_sum id
     (\<lambda>(h, s). (nodeDict s, childList s, childList (h 1), spotRefs (h 1), spotRefs (h 4)))
     (deleteNodeSpot (Suc (Suc (Suc k))) (Spot 2 None) (cloneHeap, cloneStruct))
   = Inr ([(''q'', 1)], [1], [4], [Spot 1 None], [])"
  by (simp add: deleteNodeSpot_def cloneHeap_def cloneStruct_def structOf_def plainNode_def
      spotValid_def removeInvalidSpotRefs_def removeNodeDictRef_def)

end
